theory Spec2Isabelle
  imports Complex_Main "HOL-Library.Word"
begin

chapter \<open>The model\<close>

section \<open>AD-Census stereo matcher: data model\<close>

text \<open>
  The C++ sources use \<open>sint32\<close> for sizes, indices and disparities, \<open>uint8\<close> for image
  bytes and arm lengths and \<open>float32\<close> for costs and disparities.  Inside the stages,
  indices and disparities are modelled as unbounded \<open>int\<close>/\<open>nat\<close> (the buffers are
  allocated with \<open>width * height * disp_range\<close> elements, so every index that is in
  bounds fits); where sizes are computed from the caller's values, in the initializers
  and in \<open>Match\<close>, the 32-bit result is written out.  Bytes are \<open>8 word\<close>, and \<open>float32\<close>
  values are exact \<open>real\<close> numbers: rounding of single-precision arithmetic is not
  modelled.

  The header \<open>adcensus_types.h\<close> that defines the constants \<open>Invalid_Float\<close> and
  \<open>Large_Float\<close> is not part of the sources at hand; both are taken as parameters,
  collected in the record \<open>float_consts\<close>.
\<close>

record float_consts =
  Large_Float :: real
  Invalid_Float :: real

record ADCensusOption =
  min_disparity :: int
  max_disparity :: int
  lambda_ad :: int
  lambda_census :: int
  cross_L1 :: int
  cross_L2 :: int
  cross_t1 :: int
  cross_t2 :: int
  so_p1 :: real
  so_p2 :: real
  so_tso :: int
  irv_ts :: int
  irv_th :: real
  lrcheck_thres :: real
  do_lr_check :: bool
  do_filling :: bool
  do_discontinuity_adjustment :: bool

section \<open>ADCensusStereo: Initialize and Match\<close>










text \<open>The shipped configuration (the defaults of the Python binding).\<close>

definition default_option :: ADCensusOption where
  "default_option =
     \<lparr>min_disparity = 0, max_disparity = 64, lambda_ad = 10, lambda_census = 30,
      cross_L1 = 34, cross_L2 = 17, cross_t1 = 20, cross_t2 = 6,
      so_p1 = 1, so_p2 = 3, so_tso = 15, irv_ts = 20, irv_th = 4 / 10,
      lrcheck_thres = 1, do_lr_check = True, do_filling = True,
      do_discontinuity_adjustment = False\<rparr>"

section \<open>Disparity picker: \<open>ComputeDisparity\<close> and \<open>ComputeDisparityRight\<close>\<close>

text \<open>
  Image sizes and pixel coordinates are natural numbers (every loop over them starts
  at 0 and the buffers have \<open>width * height\<close> entries); disparities are integers,
  \<open>min_disparity\<close> may be negative.  A cost volume is the list of its floats in the
  layout \<open>[y][x][d]\<close>.

  \<open>read_at\<close> is a read of a \<open>std::vector\<close> at a signed index: \<open>None\<close> when the index
  is outside the vector (undefined behaviour in the source).
\<close>

definition read_at :: "'a list \<Rightarrow> int \<Rightarrow> 'a option" where
  "read_at xs k = (if 0 \<le> k \<and> k < int (length xs) then Some (xs ! nat k) else None)"

text \<open>
  The body of the loop \<open>for (d = min_disparity; d < max_disparity; d++)\<close> of
  \<open>ComputeDisparity\<close> at pixel \<open>(i, j)\<close>; the state is
  \<open>(min_cost, best_disparity, cost_local)\<close>.
\<close>

definition wta_left_body ::
  "real list \<Rightarrow> nat \<Rightarrow> int \<Rightarrow> int \<Rightarrow> nat \<Rightarrow> nat \<Rightarrow> int
     \<Rightarrow> real \<times> int \<times> real list \<Rightarrow> real \<times> int \<times> real list" where
  "wta_left_body cost_ptr width min_d max_d i j d =
     (\<lambda>(min_cost, best_disparity, cost_local).
        let disp_range = nat (max_d - min_d);
            d_idx = nat (d - min_d);
            cost = cost_ptr ! (i * width * disp_range + j * disp_range + d_idx);
            cost_local = cost_local[d_idx := cost]
        in if min_cost > cost then (cost, d, cost_local)
           else (min_cost, best_disparity, cost_local))"

text \<open>The parabola fit through the costs before and after the best disparity.\<close>

definition subpixel :: "real \<Rightarrow> int \<Rightarrow> real \<Rightarrow> real \<Rightarrow> real" where
  "subpixel min_cost best_disparity cost_1 cost_2 =
     (let denom = cost_1 + cost_2 - 2 * min_cost
      in if denom \<noteq> 0
         then real_of_int best_disparity + (cost_1 - cost_2) / (denom * 2)
         else real_of_int best_disparity)"

text \<open>
  One iteration of the pixel loops of \<open>ComputeDisparity\<close>: the value stored in
  \<open>disparity[i * width + j]\<close> and the local cost array afterwards.  \<open>min_cost\<close> starts
  at \<open>Large_Float\<close> and \<open>best_disparity\<close> at 0 (not at \<open>min_disparity\<close>).
\<close>

definition ComputeDisparity_pixel ::
  "float_consts \<Rightarrow> real list \<Rightarrow> nat \<Rightarrow> int \<Rightarrow> int \<Rightarrow> nat \<Rightarrow> nat \<Rightarrow> real list
     \<Rightarrow> (real \<times> real list) option" where
  "ComputeDisparity_pixel K cost_ptr width min_d max_d i j cost_local0 =
     (case fold (wta_left_body cost_ptr width min_d max_d i j) [min_d..max_d - 1]
             (Large_Float K, 0, cost_local0) of
        (min_cost, best_disparity, cost_local) \<Rightarrow>
          if best_disparity = min_d \<or> best_disparity = max_d - 1
          then Some (Invalid_Float K, cost_local)
          else (case (read_at cost_local (best_disparity - 1 - min_d),
                      read_at cost_local (best_disparity + 1 - min_d)) of
                  (Some cost_1, Some cost_2) \<Rightarrow>
                     Some (subpixel min_cost best_disparity cost_1 cost_2, cost_local)
                | _ \<Rightarrow> None))"

text \<open>
  The same loop body over an abstract row of candidate costs \<open>c\<close>, indexed from 0; the
  bodies of both views are instances of it.
\<close>

definition wta_body :: "(nat \<Rightarrow> real) \<Rightarrow> int \<Rightarrow> int
     \<Rightarrow> real \<times> int \<times> real list \<Rightarrow> real \<times> int \<times> real list" where
  "wta_body c min_d d =
     (\<lambda>(min_cost, best_disparity, cost_local).
        let d_idx = nat (d - min_d);
            cost_local = cost_local[d_idx := c d_idx]
        in if min_cost > c d_idx then (c d_idx, d, cost_local)
           else (min_cost, best_disparity, cost_local))"

text \<open>\<open>d\<close> is the first index below \<open>n\<close> at which \<open>c\<close> is minimal.\<close>

definition is_first_argmin :: "(nat \<Rightarrow> real) \<Rightarrow> nat \<Rightarrow> nat \<Rightarrow> bool" where
  "is_first_argmin c n d \<longleftrightarrow> d < n \<and> (\<forall>k<n. c d \<le> c k) \<and> (\<forall>k<d. c d < c k)"

text \<open>
  The loop nest \<open>for (i = 0; i < height; i++) for (j = 0; j < width; j++)\<close> over a
  state, with a body that may fail.
\<close>

definition for_pixels :: "nat \<Rightarrow> nat \<Rightarrow> (nat \<Rightarrow> nat \<Rightarrow> 's \<Rightarrow> 's option) \<Rightarrow> 's \<Rightarrow> 's option" where
  "for_pixels width height body s0 =
     fold (\<lambda>i. fold (\<lambda>j s. Option.bind s (body i j)) [0..<width]) [0..<height] (Some s0)"

text \<open>
  What the specification records for a left pixel whose arg-min index is \<open>d\<close>, over the
  costs \<open>c 0, ..., c (n - 1)\<close> of the pixel.
\<close>

definition spec_left_disparity :: "float_consts \<Rightarrow> int \<Rightarrow> (nat \<Rightarrow> real) \<Rightarrow> nat \<Rightarrow> nat \<Rightarrow> real" where
  "spec_left_disparity K min_d c n d =
     (if d = 0 \<or> d = n - 1 then Invalid_Float K
      else let denom = c (d - 1) + c (d + 1) - 2 * c d
           in if denom \<noteq> 0
              then (real d + real_of_int min_d) + (c (d - 1) - c (d + 1)) / (2 * denom)
              else real d + real_of_int min_d)"

text \<open>The body of the pixel loops: the store into \<open>disparity\<close>.\<close>

definition ComputeDisparity_body ::
  "float_consts \<Rightarrow> real list \<Rightarrow> nat \<Rightarrow> int \<Rightarrow> int \<Rightarrow> nat \<Rightarrow> nat
     \<Rightarrow> real list \<times> real list \<Rightarrow> (real list \<times> real list) option" where
  "ComputeDisparity_body K cost_ptr width min_d max_d i j =
     (\<lambda>(disparity, cost_local).
        case ComputeDisparity_pixel K cost_ptr width min_d max_d i j cost_local of
          None \<Rightarrow> None
        | Some (v, cost_local) \<Rightarrow> Some (disparity[i * width + j := v], cost_local))"

text \<open>The arg-min index, computed: the first minimum among \<open>c 0, ..., c (n - 1)\<close>.\<close>

primrec first_argmin :: "(nat \<Rightarrow> real) \<Rightarrow> nat \<Rightarrow> nat" where
  "first_argmin c 0 = 0"
| "first_argmin c (Suc n) =
     (if n = 0 then 0 else if c n < c (first_argmin c n) then n else first_argmin c n)"

text \<open>
  \<open>ADCensusStereo::ComputeDisparity\<close>.  \<open>cost_local\<close> is allocated once, before the
  loops, and lives across the pixels.
\<close>

definition ComputeDisparity ::
  "float_consts \<Rightarrow> real list \<Rightarrow> nat \<Rightarrow> nat \<Rightarrow> int \<Rightarrow> int \<Rightarrow> real list \<Rightarrow> real list option" where
  "ComputeDisparity K cost_ptr width height min_d max_d disparity0 =
     (if max_d - min_d \<le> 0 then Some disparity0
      else map_option fst
        (for_pixels width height (ComputeDisparity_body K cost_ptr width min_d max_d)
           (disparity0, replicate (nat (max_d - min_d)) 0)))"

text \<open>The cost \<open>C[i, j, d]\<close> of the final volume.\<close>

definition left_cost :: "real list \<Rightarrow> nat \<Rightarrow> nat \<Rightarrow> nat \<Rightarrow> nat \<Rightarrow> nat \<Rightarrow> real" where
  "left_cost cost_ptr width disp_range i j d = cost_ptr ! (i * width * disp_range + j * disp_range + d)"

text \<open>
  The loop body of \<open>ComputeDisparityRight\<close> at the right-view pixel \<open>(i, j)\<close>: the
  candidate of disparity \<open>d\<close> is read at the left column \<open>j + d\<close>; outside the image
  it only stores \<open>Large_Float\<close> in \<open>cost_local\<close>.
\<close>

definition wta_right_body ::
  "float_consts \<Rightarrow> real list \<Rightarrow> nat \<Rightarrow> int \<Rightarrow> int \<Rightarrow> nat \<Rightarrow> nat \<Rightarrow> int
     \<Rightarrow> real \<times> int \<times> real list \<Rightarrow> real \<times> int \<times> real list" where
  "wta_right_body K cost_ptr width min_d max_d i j d =
     (\<lambda>(min_cost, best_disparity, cost_local).
        let disp_range = nat (max_d - min_d);
            d_idx = nat (d - min_d);
            col_left = int j + d
        in if col_left \<ge> 0 \<and> col_left < int width
           then let cost = cost_ptr ! (i * width * disp_range + nat col_left * disp_range + d_idx);
                    cost_local = cost_local[d_idx := cost]
                in if min_cost > cost then (cost, d, cost_local)
                   else (min_cost, best_disparity, cost_local)
           else (min_cost, best_disparity, cost_local[d_idx := Large_Float K]))"

text \<open>
  One pixel of \<open>ComputeDisparityRight\<close>.  At the ends of the range the integer
  \<open>best_disparity\<close> is stored.
\<close>

definition ComputeDisparityRight_pixel ::
  "float_consts \<Rightarrow> real list \<Rightarrow> nat \<Rightarrow> int \<Rightarrow> int \<Rightarrow> nat \<Rightarrow> nat \<Rightarrow> real list
     \<Rightarrow> (real \<times> real list) option" where
  "ComputeDisparityRight_pixel K cost_ptr width min_d max_d i j cost_local0 =
     (case fold (wta_right_body K cost_ptr width min_d max_d i j) [min_d..max_d - 1]
             (Large_Float K, 0, cost_local0) of
        (min_cost, best_disparity, cost_local) \<Rightarrow>
          if best_disparity = min_d \<or> best_disparity = max_d - 1
          then Some (real_of_int best_disparity, cost_local)
          else (case (read_at cost_local (best_disparity - 1 - min_d),
                      read_at cost_local (best_disparity + 1 - min_d)) of
                  (Some cost_1, Some cost_2) \<Rightarrow>
                     Some (subpixel min_cost best_disparity cost_1 cost_2, cost_local)
                | _ \<Rightarrow> None))"

text \<open>The body of the pixel loops of \<open>ComputeDisparityRight\<close>.\<close>

definition ComputeDisparityRight_body ::
  "float_consts \<Rightarrow> real list \<Rightarrow> nat \<Rightarrow> int \<Rightarrow> int \<Rightarrow> nat \<Rightarrow> nat
     \<Rightarrow> real list \<times> real list \<Rightarrow> (real list \<times> real list) option" where
  "ComputeDisparityRight_body K cost_ptr width min_d max_d i j =
     (\<lambda>(disparity, cost_local).
        case ComputeDisparityRight_pixel K cost_ptr width min_d max_d i j cost_local of
          None \<Rightarrow> None
        | Some (v, cost_local) \<Rightarrow> Some (disparity[i * width + j := v], cost_local))"

text \<open>\<open>ADCensusStereo::ComputeDisparityRight\<close>.\<close>

definition ComputeDisparityRight ::
  "float_consts \<Rightarrow> real list \<Rightarrow> nat \<Rightarrow> nat \<Rightarrow> int \<Rightarrow> int \<Rightarrow> real list \<Rightarrow> real list option" where
  "ComputeDisparityRight K cost_ptr width height min_d max_d disparity0 =
     (if max_d - min_d \<le> 0 then Some disparity0
      else map_option fst
        (for_pixels width height (ComputeDisparityRight_body K cost_ptr width min_d max_d)
           (disparity0, replicate (nat (max_d - min_d)) 0)))"

text \<open>
  The candidate costs of the right-view pixel \<open>(i, j)\<close> as the source reads them:
  index \<open>d\<close> stands for the disparity \<open>d + min_disparity\<close> and the left column
  \<open>j + d + min_disparity\<close>.
\<close>

definition right_cost ::
  "float_consts \<Rightarrow> real list \<Rightarrow> nat \<Rightarrow> nat \<Rightarrow> int \<Rightarrow> nat \<Rightarrow> nat \<Rightarrow> nat \<Rightarrow> real" where
  "right_cost K cost_ptr width disp_range min_d i j d =
     (let col_left = int j + (int d + min_d)
      in if 0 \<le> col_left \<and> col_left < int width
         then cost_ptr ! (i * width * disp_range + nat col_left * disp_range + d)
         else Large_Float K)"

text \<open>
  What the source records for a right pixel whose arg-min index is \<open>d\<close>: the integer
  disparity \<open>d + min_disparity\<close> at the ends of the range, the parabola fit inside.
\<close>

definition spec_right_disparity :: "int \<Rightarrow> (nat \<Rightarrow> real) \<Rightarrow> nat \<Rightarrow> nat \<Rightarrow> real" where
  "spec_right_disparity min_d c n d =
     (if d = 0 \<or> d = n - 1 then real d + real_of_int min_d
      else let denom = c (d - 1) + c (d + 1) - 2 * c d
           in if denom \<noteq> 0
              then (real d + real_of_int min_d) + (c (d - 1) - c (d + 1)) / (2 * denom)
              else real d + real_of_int min_d)"

text \<open>
  The right view as claim C4 words it: the candidate of index \<open>d\<close> is \<open>C[i, j + d, d]\<close>
  when \<open>j + d\<close> is a column and \<open>Large_Float\<close> otherwise, and at the ends of the range
  the integer \<open>d\<close> itself is recorded.
\<close>

definition claimed_right_cost ::
  "float_consts \<Rightarrow> real list \<Rightarrow> nat \<Rightarrow> nat \<Rightarrow> nat \<Rightarrow> nat \<Rightarrow> nat \<Rightarrow> real" where
  "claimed_right_cost K cost_ptr width disp_range i j d =
     (if j + d < width then cost_ptr ! (i * width * disp_range + (j + d) * disp_range + d)
      else Large_Float K)"

definition claimed_right_disparity :: "int \<Rightarrow> (nat \<Rightarrow> real) \<Rightarrow> nat \<Rightarrow> nat \<Rightarrow> real" where
  "claimed_right_disparity min_d c n d =
     (if d = 0 \<or> d = n - 1 then real d
      else let denom = c (d - 1) + c (d + 1) - 2 * c d
           in if denom \<noteq> 0
              then (real d + real_of_int min_d) + (c (d - 1) - c (d + 1)) / (2 * denom)
              else real d + real_of_int min_d)"

text \<open>Concrete values of the two float constants, for the examples.\<close>

definition K0 :: float_consts where
  "K0 = \<lparr>Large_Float = 99999, Invalid_Float = 1000000\<rparr>"

section \<open>CrossAggregator: arm construction\<close>

text \<open>
  An image is the list of its bytes, three per pixel, rows first.

  Modelled from the spec: the struct \<open>ADColor\<close> (three bytes), the function
  \<open>ColorDist\<close> (the largest of the three absolute channel differences) and the
  constant \<open>MAX_ARM_LENGTH = 255\<close> are declared in headers that are not among the
  sources.
\<close>

type_synonym ADColor = "8 word \<times> 8 word \<times> 8 word"

definition ColorDist :: "ADColor \<Rightarrow> ADColor \<Rightarrow> int" where
  "ColorDist c1 c2 =
     (case (c1, c2) of ((b1, g1, r1), (b2, g2, r2)) \<Rightarrow>
        max (\<bar>uint r1 - uint r2\<bar>) (max (\<bar>uint g1 - uint g2\<bar>) (\<bar>uint b1 - uint b2\<bar>)))"

definition MAX_ARM_LENGTH :: int where
  "MAX_ARM_LENGTH = 255"

text \<open>The colour of pixel \<open>(x, y)\<close>: the three bytes at \<open>img + y * width * 3 + 3 * x\<close>.\<close>

definition pixel_color :: "8 word list \<Rightarrow> nat \<Rightarrow> nat \<Rightarrow> nat \<Rightarrow> ADColor" where
  "pixel_color img width x y =
     (img ! (y * width * 3 + 3 * x), img ! (y * width * 3 + 3 * x + 1),
      img ! (y * width * 3 + 3 * x + 2))"

text \<open>
  The structure \<open>CrossArm\<close>: four \<open>uint8\<close> lengths (the fields \<open>left\<close>, \<open>right\<close>, \<open>top\<close>,
  \<open>bottom\<close> of the source).
\<close>

record CrossArm =
  arm_left :: "8 word"
  arm_right :: "8 word"
  arm_top :: "8 word"
  arm_bottom :: "8 word"

text \<open>
  The pixel visited at step \<open>n\<close> of each of the four walks, after the boundary test of
  the source: \<open>None\<close> when the test breaks the loop (\<open>xn < 0\<close> and \<open>yn < 0\<close> backwards,
  \<open>xn == width_\<close> and \<open>yn == height_\<close> forwards).
\<close>

definition walk_left :: "8 word list \<Rightarrow> nat \<Rightarrow> nat \<Rightarrow> nat \<Rightarrow> nat \<Rightarrow> ADColor option" where
  "walk_left img width x y n =
     (let xn = int x - 1 - int n
      in if xn < 0 then None else Some (pixel_color img width (nat xn) y))"

definition walk_right :: "8 word list \<Rightarrow> nat \<Rightarrow> nat \<Rightarrow> nat \<Rightarrow> nat \<Rightarrow> ADColor option" where
  "walk_right img width x y n =
     (let xn = x + 1 + n
      in if xn = width then None else Some (pixel_color img width xn y))"

definition walk_up :: "8 word list \<Rightarrow> nat \<Rightarrow> nat \<Rightarrow> nat \<Rightarrow> nat \<Rightarrow> ADColor option" where
  "walk_up img width x y n =
     (let yn = int y - 1 - int n
      in if yn < 0 then None else Some (pixel_color img width x (nat yn)))"

definition walk_down :: "8 word list \<Rightarrow> nat \<Rightarrow> nat \<Rightarrow> nat \<Rightarrow> nat \<Rightarrow> nat \<Rightarrow> ADColor option" where
  "walk_down img width height x y n =
     (let yn = y + 1 + n
      in if yn = height then None else Some (pixel_color img width x yn))"

text \<open>
  The loop \<open>for (n = 0; n < std::min(cross_L1_, MAX_ARM_LENGTH); n++)\<close>, the same text
  in the four walks: the first argument counts the iterations that remain, \<open>len\<close> is
  the \<open>uint8\<close> arm length incremented by the accepted steps, and every \<open>break\<close> returns
  it.
\<close>

fun arm_loop ::
  "(nat \<Rightarrow> ADColor option) \<Rightarrow> ADColor \<Rightarrow> int \<Rightarrow> int \<Rightarrow> int \<Rightarrow> nat \<Rightarrow> nat \<Rightarrow> ADColor
     \<Rightarrow> 8 word \<Rightarrow> 8 word" where
  "arm_loop walk color0 L2 t1 t2 0 n color_last len = len"
| "arm_loop walk color0 L2 t1 t2 (Suc remaining) n color_last len =
     (case walk n of
        None \<Rightarrow> len
      | Some color \<Rightarrow>
          let color_dist1 = ColorDist color color0 in
          if color_dist1 \<ge> t1 then len
          else if n > 0 \<and> ColorDist color color_last \<ge> t1 then len
          else if int n + 1 > L2 \<and> color_dist1 \<ge> t2 then len
          else arm_loop walk color0 L2 t1 t2 remaining (n + 1) color (len + 1))"

definition find_arm ::
  "(nat \<Rightarrow> ADColor option) \<Rightarrow> ADColor \<Rightarrow> int \<Rightarrow> int \<Rightarrow> int \<Rightarrow> int \<Rightarrow> 8 word" where
  "find_arm walk color0 L1 L2 t1 t2 =
     arm_loop walk color0 L2 t1 t2 (nat (min L1 MAX_ARM_LENGTH)) 0 color0 0"

text \<open>\<open>FindHorizontalArm\<close>: the pair \<open>(left, right)\<close>; \<open>FindVerticalArm\<close>: \<open>(top, bottom)\<close>.\<close>

definition FindHorizontalArm ::
  "8 word list \<Rightarrow> nat \<Rightarrow> int \<Rightarrow> int \<Rightarrow> int \<Rightarrow> int \<Rightarrow> nat \<Rightarrow> nat \<Rightarrow> 8 word \<times> 8 word" where
  "FindHorizontalArm img width L1 L2 t1 t2 x y =
     (let color0 = pixel_color img width x y
      in (find_arm (walk_left img width x y) color0 L1 L2 t1 t2,
          find_arm (walk_right img width x y) color0 L1 L2 t1 t2))"

definition FindVerticalArm ::
  "8 word list \<Rightarrow> nat \<Rightarrow> nat \<Rightarrow> int \<Rightarrow> int \<Rightarrow> int \<Rightarrow> int \<Rightarrow> nat \<Rightarrow> nat \<Rightarrow> 8 word \<times> 8 word" where
  "FindVerticalArm img width height L1 L2 t1 t2 x y =
     (let color0 = pixel_color img width x y
      in (find_arm (walk_up img width x y) color0 L1 L2 t1 t2,
          find_arm (walk_down img width height x y) color0 L1 L2 t1 t2))"

text \<open>\<open>BuildArms\<close>: the arms of every pixel, stored at \<open>y * width + x\<close>.\<close>

definition BuildArms_body ::
  "8 word list \<Rightarrow> nat \<Rightarrow> nat \<Rightarrow> int \<Rightarrow> int \<Rightarrow> int \<Rightarrow> int \<Rightarrow> nat \<Rightarrow> nat
     \<Rightarrow> CrossArm list \<Rightarrow> CrossArm list" where
  "BuildArms_body img width height L1 L2 t1 t2 y x arms =
     (let (l, r) = FindHorizontalArm img width L1 L2 t1 t2 x y;
          (t, b) = FindVerticalArm img width height L1 L2 t1 t2 x y
      in arms[y * width + x := \<lparr>arm_left = l, arm_right = r, arm_top = t, arm_bottom = b\<rparr>])"

definition BuildArms ::
  "8 word list \<Rightarrow> nat \<Rightarrow> nat \<Rightarrow> int \<Rightarrow> int \<Rightarrow> int \<Rightarrow> int \<Rightarrow> CrossArm list \<Rightarrow> CrossArm list" where
  "BuildArms img width height L1 L2 t1 t2 arms0 =
     fold (\<lambda>y. fold (BuildArms_body img width height L1 L2 t1 t2 y) [0..<width]) [0..<height] arms0"

text \<open>
  The test that the loop body applies at step \<open>n\<close> of a walk, with the loop bound: no
  \<open>break\<close> at the boundary test, at the two colour tests against \<open>cross_t1_\<close> or at the
  test against \<open>cross_t2_\<close>.
\<close>

definition step_accepted ::
  "(nat \<Rightarrow> ADColor option) \<Rightarrow> ADColor \<Rightarrow> int \<Rightarrow> int \<Rightarrow> int \<Rightarrow> int \<Rightarrow> nat \<Rightarrow> bool" where
  "step_accepted walk color0 L1 L2 t1 t2 n \<longleftrightarrow>
     int n < min L1 MAX_ARM_LENGTH \<and>
     (case walk n of
        None \<Rightarrow> False
      | Some color \<Rightarrow>
          ColorDist color color0 < t1 \<and>
          (n > 0 \<longrightarrow> (case walk (n - 1) of None \<Rightarrow> False
                                           | Some prev \<Rightarrow> ColorDist color prev < t1)) \<and>
          (int n + 1 > L2 \<longrightarrow> ColorDist color color0 < t2))"

text \<open>\<open>a\<close> is the first step of the walk at which the loop stops.\<close>

definition largest_accepted_prefix ::
  "(nat \<Rightarrow> ADColor option) \<Rightarrow> ADColor \<Rightarrow> int \<Rightarrow> int \<Rightarrow> int \<Rightarrow> int \<Rightarrow> nat \<Rightarrow> bool" where
  "largest_accepted_prefix walk color0 L1 L2 t1 t2 a \<longleftrightarrow>
     (\<forall>n<a. step_accepted walk color0 L1 L2 t1 t2 n) \<and> \<not> step_accepted walk color0 L1 L2 t1 t2 a"

text \<open>
  The acceptance test of the specification, on image coordinates.  Step \<open>n\<close> of the
  arm of \<open>(x, y)\<close> in the direction \<open>(dx, dy)\<close> is the pixel
  \<open>(x + (n + 1) * dx, y + (n + 1) * dy)\<close>; the step is accepted when its index is below
  \<open>min(cross_L1, MAX_ARM_LENGTH)\<close>, the pixel is inside the image, its colour is
  closer than \<open>cross_t1\<close> to the centre and, after the first step, to the pixel of the
  previous step, and closer than \<open>cross_t2\<close> to the centre once \<open>n + 1 > cross_L2\<close>.
  The directions are \<open>(-1, 0)\<close> for the left arm, \<open>(1, 0)\<close> for the right arm, \<open>(0, -1)\<close>
  for the top arm and \<open>(0, 1)\<close> for the bottom arm.
\<close>

definition spec_step_accepted ::
  "8 word list \<Rightarrow> nat \<Rightarrow> nat \<Rightarrow> int \<Rightarrow> int \<Rightarrow> int \<Rightarrow> int \<Rightarrow> int \<Rightarrow> int \<Rightarrow> nat \<Rightarrow> nat \<Rightarrow> nat
     \<Rightarrow> bool" where
  "spec_step_accepted img width height L1 L2 t1 t2 dx dy x y n \<longleftrightarrow>
     (let px = int x + (int n + 1) * dx;
          py = int y + (int n + 1) * dy;
          color = pixel_color img width (nat px) (nat py);
          centre = pixel_color img width x y;
          previous = pixel_color img width (nat (px - dx)) (nat (py - dy))
      in int n < min L1 MAX_ARM_LENGTH
         \<and> 0 \<le> px \<and> px < int width \<and> 0 \<le> py \<and> py < int height
         \<and> ColorDist color centre < t1
         \<and> (n > 0 \<longrightarrow> ColorDist color previous < t1)
         \<and> (int n + 1 > L2 \<longrightarrow> ColorDist color centre < t2))"

text \<open>\<open>a\<close> is the length of the largest prefix of accepted steps.\<close>

definition spec_arm_length ::
  "8 word list \<Rightarrow> nat \<Rightarrow> nat \<Rightarrow> int \<Rightarrow> int \<Rightarrow> int \<Rightarrow> int \<Rightarrow> int \<Rightarrow> int \<Rightarrow> nat \<Rightarrow> nat \<Rightarrow> nat
     \<Rightarrow> bool" where
  "spec_arm_length img width height L1 L2 t1 t2 dx dy x y a \<longleftrightarrow>
     (\<forall>n<a. spec_step_accepted img width height L1 L2 t1 t2 dx dy x y n)
     \<and> \<not> spec_step_accepted img width height L1 L2 t1 t2 dx dy x y a"

text \<open>
  A 3 x 2 image: the pixel \<open>(1, 0)\<close> has close greys to its left, to its right and
  below, and the two other pixels of the second row are far from everything.
\<close>

definition img3 :: "8 word list" where
  "img3 = [10, 10, 10, 12, 12, 12, 14, 14, 14,
           200, 200, 200, 13, 13, 13, 200, 200, 200]"

definition arm0 :: CrossArm where
  "arm0 = \<lparr>arm_left = 0, arm_right = 0, arm_top = 0, arm_bottom = 0\<rparr>"

section \<open>CrossAggregator: support counts and aggregation\<close>

text \<open>
  The loop \<open>acc = 0; for (t = lo; t <= hi; t++) acc += f(t)\<close> along an arm, with
  \<open>lo = -arm.left\<close> or \<open>-arm.top\<close> and \<open>hi = arm.right\<close> or \<open>arm.bottom\<close> (the \<open>uint8\<close>
  lengths promoted to \<open>int\<close>).
\<close>

definition arm_sum :: "int \<Rightarrow> int \<Rightarrow> (int \<Rightarrow> 'a) \<Rightarrow> 'a::{zero,plus}" where
  "arm_sum lo hi f = fold (\<lambda>t acc. acc + f t) [lo..hi] 0"

text \<open>
  The value of \<open>count\<close> in \<open>ComputeSupPixelCount\<close> at pixel \<open>(x, y)\<close> in pass \<open>k\<close> of the
  orientation \<open>horizontal_first\<close>; \<open>tmp\<close> is \<open>vec_sup_count_tmp_\<close>.
\<close>

definition sup_count_value ::
  "CrossArm list \<Rightarrow> nat \<Rightarrow> bool \<Rightarrow> nat \<Rightarrow> int list \<Rightarrow> nat \<Rightarrow> nat \<Rightarrow> int" where
  "sup_count_value arms width horizontal_first k tmp y x =
     (let arm = arms ! (y * width + x) in
      if horizontal_first then
        if k = 0 then arm_sum (- uint (arm_left arm)) (uint (arm_right arm)) (\<lambda>t. 1)
        else arm_sum (- uint (arm_top arm)) (uint (arm_bottom arm))
               (\<lambda>t. tmp ! nat ((int y + t) * int width + int x))
      else
        if k = 0 then arm_sum (- uint (arm_top arm)) (uint (arm_bottom arm)) (\<lambda>t. 1)
        else arm_sum (- uint (arm_left arm)) (uint (arm_right arm))
               (\<lambda>t. tmp ! nat (int y * int width + int x + t)))"

text \<open>
  One pass \<open>k\<close> over all pixels.  Pass 0 writes \<open>vec_sup_count_tmp_\<close> and reads the
  arms only; pass 1 reads \<open>vec_sup_count_tmp_\<close> and writes \<open>vec_sup_count_[id]\<close>, so
  the array read by a pass is never the one it writes.
\<close>

definition sup_count_pass ::
  "CrossArm list \<Rightarrow> nat \<Rightarrow> nat \<Rightarrow> bool \<Rightarrow> nat \<Rightarrow> int list \<Rightarrow> int list \<Rightarrow> int list" where
  "sup_count_pass arms width height horizontal_first k tmp dst =
     fold (\<lambda>y. fold (\<lambda>x dst.
             dst[y * width + x := sup_count_value arms width horizontal_first k tmp y x])
           [0..<width]) [0..<height] dst"

text \<open>
  \<open>ComputeSupPixelCount\<close>: the loops over \<open>n\<close> (horizontal first, then vertical first)
  and \<open>k\<close> (pass 1, pass 2) written out.  The state is
  \<open>(vec_sup_count_tmp_, vec_sup_count_[0], vec_sup_count_[1])\<close>.
\<close>

definition ComputeSupPixelCount ::
  "CrossArm list \<Rightarrow> nat \<Rightarrow> nat \<Rightarrow> int list \<times> int list \<times> int list
     \<Rightarrow> int list \<times> int list \<times> int list" where
  "ComputeSupPixelCount arms width height =
     (\<lambda>(tmp, sup0, sup1).
        let tmp = sup_count_pass arms width height True 0 tmp tmp;
            sup0 = sup_count_pass arms width height True 1 tmp sup0;
            tmp = sup_count_pass arms width height False 0 tmp tmp;
            sup1 = sup_count_pass arms width height False 1 tmp sup1
        in (tmp, sup0, sup1))"

text \<open>
  The value of \<open>cost\<close> in \<open>AggregateInArms\<close> at pixel \<open>(x, y)\<close> in pass \<open>k\<close>: the sum of
  the plane \<open>src\<close> (\<open>vec_cost_tmp_[0]\<close> in pass 1, \<open>vec_cost_tmp_[1]\<close> in pass 2) along
  the arm of the pass.
\<close>

definition aggr_value ::
  "CrossArm list \<Rightarrow> nat \<Rightarrow> bool \<Rightarrow> nat \<Rightarrow> real list \<Rightarrow> nat \<Rightarrow> nat \<Rightarrow> real" where
  "aggr_value arms width horizontal_first k src y x =
     (let arm = arms ! (y * width + x) in
      if horizontal_first then
        if k = 0 then arm_sum (- uint (arm_left arm)) (uint (arm_right arm))
               (\<lambda>t. src ! nat (int y * int width + int x + t))
        else arm_sum (- uint (arm_top arm)) (uint (arm_bottom arm))
               (\<lambda>t. src ! nat ((int y + t) * int width + int x))
      else
        if k = 0 then arm_sum (- uint (arm_top arm)) (uint (arm_bottom arm))
               (\<lambda>t. src ! nat ((int y + t) * int width + int x))
        else arm_sum (- uint (arm_left arm)) (uint (arm_right arm))
               (\<lambda>t. src ! nat (int y * int width + int x + t)))"

text \<open>
  The three loop nests of \<open>AggregateInArms\<close> for the disparity index \<open>disp\<close>: the copy
  of the slice into \<open>vec_cost_tmp_[0]\<close>, pass 1 (\<open>k == 0\<close>) into \<open>vec_cost_tmp_[1]\<close>,
  and pass 2 (\<open>k == 1\<close>), which writes the slice back divided by the support count
  \<open>vec_sup_count_[ct_id]\<close>.
\<close>

definition copy_slice :: "real list \<Rightarrow> nat \<Rightarrow> nat \<Rightarrow> nat \<Rightarrow> nat \<Rightarrow> real list \<Rightarrow> real list" where
  "copy_slice cost_aggr width height disp_range disp tmp0 =
     fold (\<lambda>y. fold (\<lambda>x tmp0.
             tmp0[y * width + x := cost_aggr ! (y * width * disp_range + x * disp_range + disp)])
           [0..<width]) [0..<height] tmp0"

definition aggr_pass1 ::
  "CrossArm list \<Rightarrow> nat \<Rightarrow> nat \<Rightarrow> bool \<Rightarrow> real list \<Rightarrow> real list \<Rightarrow> real list" where
  "aggr_pass1 arms width height horizontal_first tmp0 tmp1 =
     fold (\<lambda>y. fold (\<lambda>x tmp1.
             tmp1[y * width + x := aggr_value arms width horizontal_first 0 tmp0 y x])
           [0..<width]) [0..<height] tmp1"

definition aggr_pass2 ::
  "CrossArm list \<Rightarrow> nat \<Rightarrow> nat \<Rightarrow> nat \<Rightarrow> nat \<Rightarrow> bool \<Rightarrow> int list \<Rightarrow> real list
     \<Rightarrow> real list \<Rightarrow> real list" where
  "aggr_pass2 arms width height disp_range disp horizontal_first sup_count tmp1 cost_aggr =
     fold (\<lambda>y. fold (\<lambda>x cost_aggr.
             cost_aggr[y * width * disp_range + x * disp_range + disp :=
               aggr_value arms width horizontal_first 1 tmp1 y x
                 / real_of_int (sup_count ! (y * width + x))])
           [0..<width]) [0..<height] cost_aggr"

text \<open>
  \<open>AggregateInArms(disparity, horizontal_first)\<close> on the volume \<open>cost_aggr_\<close> and the
  two scratch planes, with \<open>sup_count = vec_sup_count_[ct_id]\<close>.  The guard at the top
  returns with nothing changed.
\<close>

definition AggregateInArms ::
  "CrossArm list \<Rightarrow> nat \<Rightarrow> nat \<Rightarrow> int \<Rightarrow> int \<Rightarrow> int list \<Rightarrow> int \<Rightarrow> bool
     \<Rightarrow> real list \<times> real list \<times> real list \<Rightarrow> real list \<times> real list \<times> real list" where
  "AggregateInArms arms width height min_d max_d sup_count disparity horizontal_first =
     (\<lambda>(cost_aggr, tmp0, tmp1).
        if disparity < min_d \<or> disparity \<ge> max_d then (cost_aggr, tmp0, tmp1)
        else
          let disp = nat (disparity - min_d);
              disp_range = nat (max_d - min_d);
              tmp0 = copy_slice cost_aggr width height disp_range disp tmp0;
              tmp1 = aggr_pass1 arms width height horizontal_first tmp0 tmp1;
              cost_aggr = aggr_pass2 arms width height disp_range disp horizontal_first
                            sup_count tmp1 cost_aggr
          in (cost_aggr, tmp0, tmp1))"

text \<open>Every arm of every pixel stays inside the image.\<close>

definition arms_inside :: "CrossArm list \<Rightarrow> nat \<Rightarrow> nat \<Rightarrow> bool" where
  "arms_inside arms width height \<longleftrightarrow>
     (\<forall>y<height. \<forall>x<width.
        unat (arm_left (arms ! (y * width + x))) \<le> x \<and>
        x + unat (arm_right (arms ! (y * width + x))) < width \<and>
        unat (arm_top (arms ! (y * width + x))) \<le> y \<and>
        y + unat (arm_bottom (arms ! (y * width + x))) < height)"

text \<open>
  The two-pass cross regions of the specification, as the lists of the pixels
  \<open>(x', y')\<close> whose costs are summed.  Horizontal first: the horizontal arms of the
  pixels on the vertical arm of \<open>(x, y)\<close>.  Vertical first: the vertical arms of the
  pixels on its horizontal arm.
\<close>

definition region_hf :: "CrossArm list \<Rightarrow> nat \<Rightarrow> nat \<Rightarrow> nat \<Rightarrow> (nat \<times> nat) list" where
  "region_hf arms width x y =
     concat (map (\<lambda>t. map (\<lambda>s. (nat (int x + s), nat (int y + t)))
                        [- uint (arm_left (arms ! (nat (int y + t) * width + x)))
                         .. uint (arm_right (arms ! (nat (int y + t) * width + x)))])
                 [- uint (arm_top (arms ! (y * width + x)))
                  .. uint (arm_bottom (arms ! (y * width + x)))])"

definition region_vf :: "CrossArm list \<Rightarrow> nat \<Rightarrow> nat \<Rightarrow> nat \<Rightarrow> (nat \<times> nat) list" where
  "region_vf arms width x y =
     concat (map (\<lambda>s. map (\<lambda>t. (nat (int x + s), nat (int y + t)))
                        [- uint (arm_top (arms ! (y * width + nat (int x + s))))
                         .. uint (arm_bottom (arms ! (y * width + nat (int x + s))))])
                 [- uint (arm_left (arms ! (y * width + x)))
                  .. uint (arm_right (arms ! (y * width + x)))])"

definition region :: "bool \<Rightarrow> CrossArm list \<Rightarrow> nat \<Rightarrow> nat \<Rightarrow> nat \<Rightarrow> (nat \<times> nat) list" where
  "region horizontal_first arms width x y =
     (if horizontal_first then region_hf arms width x y else region_vf arms width x y)"

text \<open>The arms of a 2 x 1 image whose two pixels see each other.\<close>

definition arms2 :: "CrossArm list" where
  "arms2 = [\<lparr>arm_left = 0, arm_right = 1, arm_top = 0, arm_bottom = 0\<rparr>,
            \<lparr>arm_left = 1, arm_right = 0, arm_top = 0, arm_bottom = 0\<rparr>]"

section \<open>MultiStepRefiner\<close>

text \<open>
  \<open>lround\<close> of the C library: the nearest integer, halfway cases away from zero.
\<close>

definition lround :: "real \<Rightarrow> int" where
  "lround r = (if 0 \<le> r then \<lfloor>r + 1 / 2\<rfloor> else \<lceil>r - 1 / 2\<rceil>)"

text \<open>
  The disparity map \<open>disp_left_\<close> and the two outlier lists \<open>occlusions_\<close> and
  \<open>mismatches_\<close> (vectors of pairs \<open>(x, y)\<close>) are the state of the refinement steps,
  in this order.
\<close>

type_synonym refine_state = "real list \<times> (nat \<times> nat) list \<times> (nat \<times> nat) list"

text \<open>
  The calls \<open>abs(v)\<close> of \<open>multistep_refiner.cpp\<close> with a \<open>float32\<close> argument.  The call is
  unqualified and the file includes only \<open><cmath>\<close> besides the project's headers, so
  with g++ and libstdc++ it resolves to the C library's \<open>int abs(int)\<close>: the argument
  is converted to \<open>int\<close>, which truncates toward zero, and the result is an \<open>int\<close>,
  converted back to \<open>float32\<close> where it meets one.  The conversion of a value outside
  the range of \<open>int\<close> is undefined in the source; the model truncates every value.
\<close>

definition truncate_to_int :: "real \<Rightarrow> int" where
  "truncate_to_int v = (if 0 \<le> v then \<lfloor>v\<rfloor> else \<lceil>v\<rceil>)"

definition abs_int :: "real \<Rightarrow> int" where
  "abs_int v = \<bar>truncate_to_int v\<bar>"

subsection \<open>Step 1: outlier detection\<close>

text \<open>
  The body of the pixel loops of \<open>OutlierDetection\<close>.  \<open>disp\<close> is a reference to
  \<open>disp_left_[y * width + x]\<close>, assigned \<open>Invalid_Float\<close> after the classification.
\<close>

definition OutlierDetection_body ::
  "float_consts \<Rightarrow> nat \<Rightarrow> real \<Rightarrow> real list \<Rightarrow> nat \<Rightarrow> nat \<Rightarrow> refine_state \<Rightarrow> refine_state" where
  "OutlierDetection_body K width threshold disp_right y x =
     (\<lambda>(disp_left, occlusions, mismatches).
        let disp = disp_left ! (y * width + x) in
        if disp = Invalid_Float K then (disp_left, occlusions, mismatches @ [(x, y)])
        else
          let col_right = lround (real x - disp) in
          if col_right \<ge> 0 \<and> col_right < int width then
            let disp_r = disp_right ! (y * width + nat col_right) in
            if real_of_int (abs_int (disp - disp_r)) > threshold then
              let col_rl = lround (real_of_int col_right + disp_r) in
              if col_rl > 0 \<and> col_rl < int width then
                let disp_l = disp_left ! (y * width + nat col_rl) in
                if disp_l > disp
                then (disp_left[y * width + x := Invalid_Float K], occlusions @ [(x, y)], mismatches)
                else (disp_left[y * width + x := Invalid_Float K], occlusions, mismatches @ [(x, y)])
              else (disp_left[y * width + x := Invalid_Float K], occlusions, mismatches @ [(x, y)])
            else (disp_left, occlusions, mismatches)
          else (disp_left[y * width + x := Invalid_Float K], occlusions, mismatches @ [(x, y)]))"

text \<open>\<open>OutlierDetection\<close>: both lists are cleared, then every pixel is visited.\<close>

definition OutlierDetection ::
  "float_consts \<Rightarrow> nat \<Rightarrow> nat \<Rightarrow> real \<Rightarrow> real list \<Rightarrow> refine_state \<Rightarrow> refine_state" where
  "OutlierDetection K width height threshold disp_right =
     (\<lambda>(disp_left, occlusions, mismatches).
        fold (\<lambda>y. fold (OutlierDetection_body K width threshold disp_right y) [0..<width])
          [0..<height] (disp_left, [], []))"

subsection \<open>Step 2: iterative region voting\<close>

text \<open>
  The histogram of a pixel: for every \<open>t\<close> on the vertical arm of \<open>(x, y)\<close> and every
  \<open>s\<close> on the horizontal arm of \<open>(x, y + t)\<close>, a valid disparity adds one to the bin of
  its rounded value.
\<close>

definition vote_histogram ::
  "float_consts \<Rightarrow> CrossArm list \<Rightarrow> nat \<Rightarrow> int \<Rightarrow> real list \<Rightarrow> nat \<Rightarrow> nat \<Rightarrow> int list \<Rightarrow> int list" where
  "vote_histogram K arms width min_d disp_left x y histogram =
     (let arm = arms ! (y * width + x) in
      fold (\<lambda>t histogram.
              let yt = int y + t;
                  arm2 = arms ! nat (yt * int width + int x)
              in fold (\<lambda>s histogram.
                         let d = disp_left ! nat (yt * int width + int x + s) in
                         if d \<noteq> Invalid_Float K
                         then let di = lround d
                              in histogram[nat (di - min_d) := histogram ! nat (di - min_d) + 1]
                         else histogram)
                   [- uint (arm_left arm2) .. uint (arm_right arm2)] histogram)
        [- uint (arm_top arm) .. uint (arm_bottom arm)] histogram)"

text \<open>The scan of the histogram: \<open>(best_disp, count, max_ht)\<close>, all starting at 0.\<close>

definition vote_peak :: "int list \<Rightarrow> nat \<Rightarrow> nat \<times> int \<times> int" where
  "vote_peak histogram disp_range =
     fold (\<lambda>d (best_disp, count, max_ht).
             let h = histogram ! d in
             if max_ht < h then (d, count + h, h) else (best_disp, count + h, max_ht))
       [0..<disp_range] (0, 0, 0)"

text \<open>
  The body of the loop over the pixels of a list; \<open>ts\<close> and \<open>th\<close> are the members
  \<open>irv_ts_\<close> and \<open>irv_th_\<close>.
\<close>

definition vote_pixel ::
  "float_consts \<Rightarrow> CrossArm list \<Rightarrow> nat \<Rightarrow> int \<Rightarrow> int \<Rightarrow> int \<Rightarrow> real \<Rightarrow> nat \<times> nat
     \<Rightarrow> real list \<Rightarrow> real list" where
  "vote_pixel K arms width min_d max_d ts th pix disp_left =
     (let x = fst pix; y = snd pix; disp_range = nat (max_d - min_d) in
      if disp_left ! (y * width + x) \<noteq> Invalid_Float K then disp_left
      else
        let histogram = vote_histogram K arms width min_d disp_left x y (replicate disp_range 0);
            (best_disp, count, max_ht) = vote_peak histogram disp_range
        in if max_ht > 0
           then if count > ts \<and> real_of_int max_ht * 1 / real_of_int count > th
                then disp_left[y * width + x := real_of_int (int best_disp + min_d)]
                else disp_left
           else disp_left)"

text \<open>
  One inner pass over a list: every pixel of the list is voted on, then the pixels
  that are no longer invalid are erased from the list.
\<close>

definition vote_pass ::
  "float_consts \<Rightarrow> CrossArm list \<Rightarrow> nat \<Rightarrow> int \<Rightarrow> int \<Rightarrow> int \<Rightarrow> real
     \<Rightarrow> real list \<times> (nat \<times> nat) list \<Rightarrow> real list \<times> (nat \<times> nat) list" where
  "vote_pass K arms width min_d max_d ts th =
     (\<lambda>(disp_left, trg_pixels).
        let disp_left = fold (vote_pixel K arms width min_d max_d ts th) trg_pixels disp_left
        in (disp_left,
            filter (\<lambda>pix. \<not> disp_left ! (snd pix * width + fst pix) \<noteq> Invalid_Float K) trg_pixels))"

text \<open>One of the \<open>num_iters\<close> iterations: \<open>k = 0\<close> is the mismatch list, \<open>k = 1\<close> the
  occlusion list.\<close>

definition vote_iteration ::
  "float_consts \<Rightarrow> CrossArm list \<Rightarrow> nat \<Rightarrow> int \<Rightarrow> int \<Rightarrow> int \<Rightarrow> real \<Rightarrow> refine_state \<Rightarrow> refine_state" where
  "vote_iteration K arms width min_d max_d ts th =
     (\<lambda>(disp_left, occlusions, mismatches).
        let (disp_left, mismatches) =
              vote_pass K arms width min_d max_d ts th (disp_left, mismatches);
            (disp_left, occlusions) =
              vote_pass K arms width min_d max_d ts th (disp_left, occlusions)
        in (disp_left, occlusions, mismatches))"

text \<open>\<open>IterativeRegionVoting\<close>: \<open>num_iters = 5\<close>.\<close>

definition IterativeRegionVoting ::
  "float_consts \<Rightarrow> CrossArm list \<Rightarrow> nat \<Rightarrow> int \<Rightarrow> int \<Rightarrow> int \<Rightarrow> real \<Rightarrow> refine_state \<Rightarrow> refine_state" where
  "IterativeRegionVoting K arms width min_d max_d ts th s =
     (if max_d - min_d \<le> 0 then s
      else fold (\<lambda>it. vote_iteration K arms width min_d max_d ts th) [0..<5] s)"

text \<open>
  The classification of the specification for the left pixel \<open>(x, y)\<close>, from the
  disparity maps \<open>DL\<close> and \<open>DR\<close> as they are when the pixel is visited.  The measure
  \<open>mag\<close> of the difference \<open>d - DR[y, xr]\<close> is the absolute value in the
  specification.
\<close>

datatype lr_verdict = Keep | Mismatch | Occlusion

definition lr_verdict_with ::
  "(real \<Rightarrow> real) \<Rightarrow> float_consts \<Rightarrow> nat \<Rightarrow> real \<Rightarrow> real list \<Rightarrow> real list \<Rightarrow> nat \<Rightarrow> nat
     \<Rightarrow> lr_verdict" where
  "lr_verdict_with mag K width threshold DL DR x y =
     (let d = DL ! (y * width + x) in
      if d = Invalid_Float K then Mismatch
      else
        let xr = lround (real x - d) in
        if xr < 0 \<or> int width \<le> xr then Mismatch
        else if mag (d - DR ! (y * width + nat xr)) \<le> threshold then Keep
        else
          let xrl = lround (real_of_int xr + DR ! (y * width + nat xr)) in
          if 0 < xrl \<and> xrl < int width \<and> DL ! (y * width + nat xrl) > d then Occlusion
          else Mismatch)"

definition spec_lr_verdict ::
  "float_consts \<Rightarrow> nat \<Rightarrow> real \<Rightarrow> real list \<Rightarrow> real list \<Rightarrow> nat \<Rightarrow> nat \<Rightarrow> lr_verdict" where
  "spec_lr_verdict = lr_verdict_with (\<lambda>v. \<bar>v\<bar>)"

text \<open>
  The effect of a verdict: a kept pixel changes nothing; a mismatch or an occlusion is
  appended to its list and its entry of \<open>DL\<close> is \<open>Invalid_Float\<close> afterwards.
\<close>

definition lr_step_with ::
  "(real \<Rightarrow> real) \<Rightarrow> float_consts \<Rightarrow> nat \<Rightarrow> real \<Rightarrow> real list \<Rightarrow> nat \<times> nat
     \<Rightarrow> refine_state \<Rightarrow> refine_state" where
  "lr_step_with mag K width threshold DR pix =
     (\<lambda>(DL, occlusions, mismatches).
        case lr_verdict_with mag K width threshold DL DR (fst pix) (snd pix) of
          Keep \<Rightarrow> (DL, occlusions, mismatches)
        | Mismatch \<Rightarrow>
            (DL[snd pix * width + fst pix := Invalid_Float K], occlusions, mismatches @ [pix])
        | Occlusion \<Rightarrow>
            (DL[snd pix * width + fst pix := Invalid_Float K], occlusions @ [pix], mismatches))"

definition spec_lr_step ::
  "float_consts \<Rightarrow> nat \<Rightarrow> real \<Rightarrow> real list \<Rightarrow> nat \<times> nat \<Rightarrow> refine_state \<Rightarrow> refine_state" where
  "spec_lr_step = lr_step_with (\<lambda>v. \<bar>v\<bar>)"

text \<open>The pixels \<open>(x, y)\<close> of the image in row-major scanline order.\<close>

definition row_major :: "nat \<Rightarrow> nat \<Rightarrow> (nat \<times> nat) list" where
  "row_major width height = concat (map (\<lambda>y. map (\<lambda>x. (x, y)) [0..<width]) [0..<height])"

subsection \<open>Step 3: proper interpolation\<close>

text \<open>
  The search along one ray from the pixel \<open>(x, y)\<close>: the loop
  \<open>for (m = 1; m < max_search_length; m++)\<close>, the first argument counting the
  iterations that remain.  It leaves the loop without a candidate when the ray leaves
  the image, and with the candidate \<open>(yy * width * 3 + 3 * xx, d)\<close> at the first valid
  disparity.  \<open>sina\<close> and \<open>cosa\<close> are the sine and cosine of the direction.
\<close>

fun ray_loop ::
  "float_consts \<Rightarrow> real list \<Rightarrow> nat \<Rightarrow> nat \<Rightarrow> real \<Rightarrow> real \<Rightarrow> nat \<Rightarrow> nat \<Rightarrow> nat \<Rightarrow> int
     \<Rightarrow> (nat \<times> real) option" where
  "ray_loop K disp_left width height sina cosa x y 0 m = None"
| "ray_loop K disp_left width height sina cosa x y (Suc remaining) m =
     (let yy = lround (real y + real_of_int m * sina);
          xx = lround (real x + real_of_int m * cosa)
      in if yy < 0 \<or> yy \<ge> int height \<or> xx < 0 \<or> xx \<ge> int width then None
         else let d = disp_left ! (nat yy * width + nat xx)
              in if d \<noteq> Invalid_Float K then Some (nat yy * width * 3 + 3 * nat xx, d)
                 else ray_loop K disp_left width height sina cosa x y remaining (m + 1))"

text \<open>
  The candidates of a pixel, \<open>disp_collects\<close>: one search per direction \<open>s = 0, ..., 15\<close>.
  The source takes \<open>sin(ang)\<close> and \<open>cos(ang)\<close> of the double \<open>ang\<close> that accumulates
  \<open>pi / 16\<close> with \<open>pi = 3.1415926f\<close>; the sixteen values are the parameters \<open>sina s\<close>
  and \<open>cosa s\<close> here.
\<close>

definition collect_rays ::
  "float_consts \<Rightarrow> real list \<Rightarrow> nat \<Rightarrow> nat \<Rightarrow> int \<Rightarrow> (nat \<Rightarrow> real) \<Rightarrow> (nat \<Rightarrow> real) \<Rightarrow> nat \<Rightarrow> nat
     \<Rightarrow> (nat \<times> real) list" where
  "collect_rays K disp_left width height max_search_length sina cosa x y =
     fold (\<lambda>s disp_collects.
             case ray_loop K disp_left width height (sina s) (cosa s) x y
                    (nat (max_search_length - 1)) 1 of
               None \<Rightarrow> disp_collects
             | Some dc \<Rightarrow> disp_collects @ [dc])
       [0..<16] []"

text \<open>The sum of the absolute channel differences of the pixels at two byte offsets.\<close>

definition color_l1 :: "8 word list \<Rightarrow> nat \<Rightarrow> nat \<Rightarrow> int" where
  "color_l1 img i1 i2 =
     \<bar>uint (img ! (i1 + 2)) - uint (img ! (i2 + 2))\<bar>
     + \<bar>uint (img ! (i1 + 1)) - uint (img ! (i2 + 1))\<bar>
     + \<bar>uint (img ! i1) - uint (img ! i2)\<bar>"

text \<open>
  The fill value of a mismatch (\<open>k == 0\<close>): the disparity of the candidate whose
  colour is closest; \<open>min_dist\<close> starts at 9999 and \<open>d\<close> at 0.
\<close>

definition fill_mismatch :: "8 word list \<Rightarrow> nat \<Rightarrow> nat \<Rightarrow> nat \<Rightarrow> (nat \<times> real) list \<Rightarrow> real" where
  "fill_mismatch img width x y disp_collects =
     snd (fold (\<lambda>dc (min_dist, d).
                  let dist = color_l1 img (y * width * 3 + 3 * x) (fst dc)
                  in if min_dist > dist then (dist, snd dc) else (min_dist, d))
            disp_collects (9999, 0))"

text \<open>The fill value of an occlusion (\<open>k == 1\<close>): the smallest candidate disparity.\<close>

definition fill_occlusion :: "float_consts \<Rightarrow> (nat \<times> real) list \<Rightarrow> real" where
  "fill_occlusion K disp_collects =
     fold (\<lambda>dc min_disp. min min_disp (snd dc)) disp_collects (Large_Float K)"

text \<open>
  The first loop over a list: \<open>fill_disps\<close> is a vector of \<open>trg_pixels.size()\<close> floats,
  value-initialised (0.0); the entry of a pixel without candidates is skipped by
  \<open>continue\<close>.
\<close>

definition compute_fills ::
  "float_consts \<Rightarrow> 8 word list \<Rightarrow> real list \<Rightarrow> nat \<Rightarrow> nat \<Rightarrow> int \<Rightarrow> (nat \<Rightarrow> real) \<Rightarrow> (nat \<Rightarrow> real)
     \<Rightarrow> nat \<Rightarrow> (nat \<times> nat) list \<Rightarrow> real list" where
  "compute_fills K img disp_left width height max_search_length sina cosa k trg_pixels =
     fold (\<lambda>n fill_disps.
             let x = fst (trg_pixels ! n); y = snd (trg_pixels ! n);
                 disp_collects = collect_rays K disp_left width height max_search_length
                                   sina cosa x y
             in if disp_collects = [] then fill_disps
                else if k = 0
                     then fill_disps[n := fill_mismatch img width x y disp_collects]
                     else fill_disps[n := fill_occlusion K disp_collects])
       [0..<length trg_pixels] (replicate (length trg_pixels) 0)"

text \<open>The second loop over the list: every entry of \<open>fill_disps\<close> is stored.\<close>

definition write_fills :: "nat \<Rightarrow> (nat \<times> nat) list \<Rightarrow> real list \<Rightarrow> real list \<Rightarrow> real list" where
  "write_fills width trg_pixels fill_disps disp_left =
     fold (\<lambda>n disp_left.
             disp_left[snd (trg_pixels ! n) * width + fst (trg_pixels ! n) := fill_disps ! n])
       [0..<length trg_pixels] disp_left"

definition interpolate_list ::
  "float_consts \<Rightarrow> 8 word list \<Rightarrow> nat \<Rightarrow> nat \<Rightarrow> int \<Rightarrow> (nat \<Rightarrow> real) \<Rightarrow> (nat \<Rightarrow> real)
     \<Rightarrow> nat \<Rightarrow> (nat \<times> nat) list \<Rightarrow> real list \<Rightarrow> real list" where
  "interpolate_list K img width height max_search_length sina cosa k trg_pixels disp_left =
     (if trg_pixels = [] then disp_left
      else write_fills width trg_pixels
             (compute_fills K img disp_left width height max_search_length sina cosa k trg_pixels)
             disp_left)"

text \<open>\<open>ProperInterpolation\<close>: the mismatches (\<open>k = 0\<close>), then the occlusions (\<open>k = 1\<close>).\<close>

definition ProperInterpolation ::
  "float_consts \<Rightarrow> 8 word list \<Rightarrow> nat \<Rightarrow> nat \<Rightarrow> int \<Rightarrow> int \<Rightarrow> (nat \<Rightarrow> real) \<Rightarrow> (nat \<Rightarrow> real)
     \<Rightarrow> refine_state \<Rightarrow> refine_state" where
  "ProperInterpolation K img width height min_d max_d sina cosa =
     (\<lambda>(disp_left, occlusions, mismatches).
        let max_search_length = max \<bar>max_d\<bar> \<bar>min_d\<bar>;
            disp_left = interpolate_list K img width height max_search_length sina cosa 0
                          mismatches disp_left;
            disp_left = interpolate_list K img width height max_search_length sina cosa 1
                          occlusions disp_left
        in (disp_left, occlusions, mismatches))"

subsection \<open>Step 4: depth-discontinuity adjustment\<close>

text \<open>\<open>EdgeDetect\<close>: the mask is cleared, then the interior pixels whose Sobel
  magnitude exceeds the threshold are set to 1.  The magnitude is the \<open>int\<close> sum
  \<open>abs(grad_x) + abs(grad_y)\<close> of the truncated gradients.\<close>

definition EdgeDetect :: "real list \<Rightarrow> nat \<Rightarrow> nat \<Rightarrow> real \<Rightarrow> 8 word list" where
  "EdgeDetect disp_ptr width height threshold =
     fold (\<lambda>y. fold (\<lambda>x edge_mask.
        let grad_x = (- disp_ptr ! ((y - 1) * width + x - 1) + disp_ptr ! ((y - 1) * width + x + 1))
                   + (- 2 * disp_ptr ! (y * width + x - 1) + 2 * disp_ptr ! (y * width + x + 1))
                   + (- disp_ptr ! ((y + 1) * width + x - 1) + disp_ptr ! ((y + 1) * width + x + 1));
            grad_y = (- disp_ptr ! ((y - 1) * width + x - 1) - 2 * disp_ptr ! ((y - 1) * width + x)
                      - disp_ptr ! ((y - 1) * width + x + 1))
                   + (disp_ptr ! ((y + 1) * width + x - 1) + 2 * disp_ptr ! ((y + 1) * width + x)
                      + disp_ptr ! ((y + 1) * width + x + 1));
            grad = abs_int grad_x + abs_int grad_y
        in if real_of_int grad > threshold then edge_mask[y * width + x := 1] else edge_mask)
       [1..<width - 1]) [1..<height - 1] (replicate (width * height) 0)"

text \<open>
  The body of the pixel loops of \<open>DepthDiscontinuityAdjustment\<close>.  The costs are read
  at \<open>cost_ + y * width * disp_range + x * disp_range\<close> with the rounded disparities as
  offsets; \<open>None\<close> is a read outside the volume.
\<close>

definition adjust_neighbour ::
  "float_consts \<Rightarrow> real list \<Rightarrow> nat \<Rightarrow> int \<Rightarrow> nat \<Rightarrow> nat \<Rightarrow> nat
     \<Rightarrow> (real list \<times> real) option \<Rightarrow> (real list \<times> real) option" where
  "adjust_neighbour K cost width disp_range y x k st =
     (case st of
        None \<Rightarrow> None
      | Some (disp_left, c0) \<Rightarrow>
          let x2 = (if k = 0 then x - 1 else x + 1);
              d2 = disp_left ! (y * width + x2);
              d2i = lround d2
          in if d2 \<noteq> Invalid_Float K
             then case read_at cost
                         (int y * int width * disp_range + int x * disp_range
                          + (if k = 0 then - disp_range else disp_range) + d2i) of
                    None \<Rightarrow> None
                  | Some c \<Rightarrow> if c < c0 then Some (disp_left[y * width + x := d2], c)
                              else Some (disp_left, c0)
             else Some (disp_left, c0))"

definition adjust_pixel ::
  "float_consts \<Rightarrow> real list \<Rightarrow> 8 word list \<Rightarrow> nat \<Rightarrow> int \<Rightarrow> nat \<Rightarrow> nat
     \<Rightarrow> real list option \<Rightarrow> real list option" where
  "adjust_pixel K cost edge width disp_range y x st =
     (case st of
        None \<Rightarrow> None
      | Some disp_left \<Rightarrow>
          if edge ! (y * width + x) = 1
          then let d = disp_left ! (y * width + x)
               in if d \<noteq> Invalid_Float K
                  then case read_at cost
                              (int y * int width * disp_range + int x * disp_range + lround d) of
                         None \<Rightarrow> None
                       | Some c0 \<Rightarrow>
                           map_option fst
                             (fold (adjust_neighbour K cost width disp_range y x) [0..<2]
                                (Some (disp_left, c0)))
                  else Some disp_left
          else Some disp_left)"

definition DepthDiscontinuityAdjustment ::
  "float_consts \<Rightarrow> real list \<Rightarrow> nat \<Rightarrow> nat \<Rightarrow> int \<Rightarrow> int \<Rightarrow> real list \<Rightarrow> real list option" where
  "DepthDiscontinuityAdjustment K cost width height min_d max_d disp_left =
     (let disp_range = max_d - min_d in
      if disp_range \<le> 0 then Some disp_left
      else let edge = EdgeDetect disp_left width height 5
           in fold (\<lambda>y. fold (adjust_pixel K cost edge width disp_range y) [1..<width - 1])
                [0..<height] (Some disp_left))"

subsection \<open>The refinement\<close>

text \<open>
  \<open>ADCensusStereo::MultiStepRefine\<close> with \<open>MultiStepRefiner::Refine\<close>: the options set
  the parameters (\<open>do_filling\<close> switches both the region voting and the
  interpolation), the four steps run when their switches are set, and the median
  filter runs last.  The buffers are not null once \<open>Initialize\<close> has succeeded.
  \<open>adcensus_util::MedianFilter\<close> is not among the sources: it is the parameter
  \<open>median\<close>, from the map, the width and the height to the filtered map.
\<close>

definition MultiStepRefine ::
  "float_consts \<Rightarrow> (real list \<Rightarrow> nat \<Rightarrow> nat \<Rightarrow> real list) \<Rightarrow> 8 word list \<Rightarrow> real list
     \<Rightarrow> CrossArm list \<Rightarrow> real list \<Rightarrow> nat \<Rightarrow> nat \<Rightarrow> ADCensusOption \<Rightarrow> (nat \<Rightarrow> real) \<Rightarrow> (nat \<Rightarrow> real)
     \<Rightarrow> refine_state \<Rightarrow> refine_state option" where
  "MultiStepRefine K median img cost arms disp_right width height opt sina cosa s =
     (if width \<le> 0 \<or> height \<le> 0 then Some s
      else
        let s = (if do_lr_check opt
                 then OutlierDetection K width height (lrcheck_thres opt) disp_right s else s);
            s = (if do_filling opt
                 then IterativeRegionVoting K arms width (min_disparity opt) (max_disparity opt)
                        (irv_ts opt) (irv_th opt) s
                 else s);
            s = (if do_filling opt
                 then ProperInterpolation K img width height (min_disparity opt)
                        (max_disparity opt) sina cosa s
                 else s)
        in case (if do_discontinuity_adjustment opt
                 then DepthDiscontinuityAdjustment K cost width height (min_disparity opt)
                        (max_disparity opt) (fst s)
                 else Some (fst s)) of
             None \<Rightarrow> None
           | Some disp_left \<Rightarrow> Some (median disp_left width height, snd s))"

section \<open>ScanlineOptimizer\<close>

text \<open>The penalties \<open>P1\<close>, \<open>P2\<close> (both initialised to 0) from the two colour distances.\<close>

definition so_penalties :: "real \<Rightarrow> real \<Rightarrow> int \<Rightarrow> int \<Rightarrow> int \<Rightarrow> real \<times> real" where
  "so_penalties p1 p2 tso d1 d2 =
     (if d1 < tso \<and> d2 < tso then (p1, p2)
      else if d1 < tso \<and> d2 \<ge> tso then (p1 / 4, p2 / 4)
      else if d1 \<ge> tso \<and> d2 < tso then (p1 / 4, p2 / 4)
      else if d1 \<ge> tso \<and> d2 \<ge> tso then (p1 / 10, p2 / 10)
      else (0, 0))"

text \<open>
  The body of the loop \<open>for (d = 0; d < disp_range; d++)\<close> of
  \<open>ScanlineOptimizeLeftRight\<close> at the pixel \<open>(x, y)\<close>.  The state is \<open>d2\<close>, declared
  before the loop as \<open>uint8 d2 = d1\<close> and assigned only when \<open>xr\<close> is inside
  \<open>(0, width - 1)\<close>, the running \<open>min_cost\<close>, and the destination volume.  \<open>base\<close> is
  the offset \<open>y * width * disp_range + x * disp_range\<close> of the pixel in both volumes,
  \<open>cost_last_path\<close> the padded costs of the previous pixel of the path.
\<close>

definition so_disparity_body ::
  "8 word list \<Rightarrow> nat \<Rightarrow> int \<Rightarrow> real \<Rightarrow> real \<Rightarrow> int \<Rightarrow> int \<Rightarrow> nat \<Rightarrow> int \<Rightarrow> int
     \<Rightarrow> real list \<Rightarrow> nat \<Rightarrow> real list \<Rightarrow> real \<Rightarrow> nat
     \<Rightarrow> int \<times> real \<times> real list \<Rightarrow> int \<times> real \<times> real list" where
  "so_disparity_body img_right width min_d p1 p2 tso direction y x d1 cost_so_src base
       cost_last_path mincost_last_path d =
     (\<lambda>(d2, min_cost, cost_so_dst).
        let xr = x - int d - min_d;
            d2 = (if xr > 0 \<and> xr < int width - 1
                  then ColorDist (pixel_color img_right width (nat xr) y)
                         (pixel_color img_right width (nat (xr - direction)) y)
                  else d2);
            (P1, P2) = so_penalties p1 p2 tso d1 d2;
            cost = cost_so_src ! (base + d);
            l1 = cost_last_path ! (d + 1);
            l2 = cost_last_path ! d + P1;
            l3 = cost_last_path ! (d + 2) + P1;
            l4 = mincost_last_path + P2;
            cost_s = (cost + min (min l1 l2) (min l3 l4)) / 2
        in (d2, min min_cost cost_s, cost_so_dst[base + d := cost_s]))"

text \<open>\<open>memcpy(&cost_last_path[1], row, disp_range * sizeof(float32))\<close>.\<close>

definition load_last_path :: "real list \<Rightarrow> nat \<Rightarrow> nat \<Rightarrow> real list \<Rightarrow> real list" where
  "load_last_path volume base disp_range cost_last_path =
     fold (\<lambda>d path. path[d + 1 := volume ! (base + d)]) [0..<disp_range] cost_last_path"

text \<open>
  The body of the loop \<open>for (j = 0; j < width - 1; j++)\<close> along a row.  The state is
  the column \<open>x\<close>, \<open>color_last\<close>, \<open>cost_last_path\<close>, \<open>mincost_last_path\<close> and the
  destination volume.
\<close>

definition so_row_body ::
  "float_consts \<Rightarrow> 8 word list \<Rightarrow> 8 word list \<Rightarrow> nat \<Rightarrow> int \<Rightarrow> nat \<Rightarrow> real \<Rightarrow> real \<Rightarrow> int
     \<Rightarrow> int \<Rightarrow> nat \<Rightarrow> real list \<Rightarrow> nat
     \<Rightarrow> int \<times> ADColor \<times> real list \<times> real \<times> real list
     \<Rightarrow> int \<times> ADColor \<times> real list \<times> real \<times> real list" where
  "so_row_body K img_left img_right width min_d disp_range p1 p2 tso direction y cost_so_src j =
     (\<lambda>(x, color_last, cost_last_path, mincost_last_path, cost_so_dst).
        let color = pixel_color img_left width (nat x) y;
            d1 = ColorDist color color_last;
            base = y * width * disp_range + nat x * disp_range;
            (d2, min_cost, cost_so_dst) =
              fold (so_disparity_body img_right width min_d p1 p2 tso direction y x d1
                      cost_so_src base cost_last_path mincost_last_path)
                [0..<disp_range] (d1, Large_Float K, cost_so_dst);
            cost_last_path = load_last_path cost_so_dst base disp_range cost_last_path
        in (x + direction, color, cost_last_path, min_cost, cost_so_dst))"

text \<open>
  One row of \<open>ScanlineOptimizeLeftRight\<close>: the first pixel of the path is copied from
  the source, the others follow the recurrence.
\<close>

definition so_row ::
  "float_consts \<Rightarrow> 8 word list \<Rightarrow> 8 word list \<Rightarrow> nat \<Rightarrow> int \<Rightarrow> nat \<Rightarrow> real \<Rightarrow> real \<Rightarrow> int
     \<Rightarrow> bool \<Rightarrow> real list \<Rightarrow> nat \<Rightarrow> real list \<Rightarrow> real list" where
  "so_row K img_left img_right width min_d disp_range p1 p2 tso is_forward cost_so_src y cost_so_dst =
     (let direction = (if is_forward then 1 else - 1);
          x = (if is_forward then 0 else int width - 1);
          base = y * width * disp_range + nat x * disp_range;
          color = pixel_color img_left width (nat x) y;
          cost_so_dst = fold (\<lambda>d dst. dst[base + d := cost_so_src ! (base + d)])
                          [0..<disp_range] cost_so_dst;
          cost_last_path = load_last_path cost_so_dst base disp_range
                             (replicate (disp_range + 2) (Large_Float K));
          mincost_last_path = fold (\<lambda>cost m. min m cost) cost_last_path (Large_Float K)
      in snd (snd (snd (snd
           (fold (so_row_body K img_left img_right width min_d disp_range p1 p2 tso direction y
                    cost_so_src)
              [0..<width - 1]
              (x + direction, color, cost_last_path, mincost_last_path, cost_so_dst))))))"

text \<open>\<open>ScanlineOptimizeLeftRight(cost_so_src, cost_so_dst, is_forward)\<close>: the destination
  volume afterwards.\<close>

definition ScanlineOptimizeLeftRight ::
  "float_consts \<Rightarrow> 8 word list \<Rightarrow> 8 word list \<Rightarrow> nat \<Rightarrow> nat \<Rightarrow> int \<Rightarrow> int \<Rightarrow> real \<Rightarrow> real \<Rightarrow> int
     \<Rightarrow> real list \<Rightarrow> real list \<Rightarrow> bool \<Rightarrow> real list" where
  "ScanlineOptimizeLeftRight K img_left img_right width height min_d max_d p1 p2 tso
       cost_so_src cost_so_dst is_forward =
     fold (so_row K img_left img_right width min_d (nat (max_d - min_d)) p1 p2 tso is_forward
             cost_so_src)
       [0..<height] cost_so_dst"

text \<open>
  The recurrence as claim C7 words it, for the pixel \<open>(x, y)\<close> that follows \<open>(x0, y)\<close> on
  a horizontal path: \<open>L0\<close> is the row of costs \<open>L[p0, .]\<close> of the previous pixel,
  entries outside \<open>[0, disp_range)\<close> count as \<open>Large_Float\<close>, \<open>d1\<close> is the colour distance
  of the two pixels in the left image and \<open>d2\<close> the distance of the right-image pixels
  \<open>x - d - min_disparity\<close> and its predecessor when that column is inside
  \<open>(0, width - 1)\<close>, and \<open>d1\<close> when it is not.
\<close>

definition claimed_last :: "float_consts \<Rightarrow> real list \<Rightarrow> int \<Rightarrow> real" where
  "claimed_last K L0 k = (if 0 \<le> k \<and> k < int (length L0) then L0 ! nat k else Large_Float K)"

definition claimed_so_cost ::
  "float_consts \<Rightarrow> 8 word list \<Rightarrow> 8 word list \<Rightarrow> nat \<Rightarrow> int \<Rightarrow> real \<Rightarrow> real \<Rightarrow> int \<Rightarrow> int
     \<Rightarrow> real list \<Rightarrow> real \<Rightarrow> nat \<Rightarrow> nat \<Rightarrow> nat \<Rightarrow> real" where
  "claimed_so_cost K img_left img_right width min_d p1 p2 tso direction L0 c x y d =
     (let d1 = ColorDist (pixel_color img_left width x y)
                 (pixel_color img_left width (nat (int x - direction)) y);
          xr = int x - int d - min_d;
          d2 = (if 0 < xr \<and> xr < int width - 1
                then ColorDist (pixel_color img_right width (nat xr) y)
                       (pixel_color img_right width (nat (xr - direction)) y)
                else d1);
          (P1, P2) = so_penalties p1 p2 tso d1 d2
      in (c + min (min (claimed_last K L0 (int d)) (claimed_last K L0 (int d - 1) + P1))
                  (min (claimed_last K L0 (int d + 1) + P1)
                       (fold min L0 (Large_Float K) + P2))) / 2)"

text \<open>
  A 3 x 1 pair: a black left image, and a right image whose middle pixel differs from
  its neighbours by 100.
\<close>

definition so_left :: "8 word list" where
  "so_left = [0, 0, 0, 0, 0, 0, 0, 0, 0]"

definition so_right :: "8 word list" where
  "so_right = [0, 0, 0, 100, 100, 100, 0, 0, 0]"

text \<open>
  Region voting as the specification words it.  The votes of the pixel \<open>(x, y)\<close> are
  the rounded valid disparities over its region (vertical arm, then the horizontal
  arm of each pixel on it); bin \<open>b\<close> of the histogram counts the votes for the
  disparity \<open>b + min_disparity\<close>; \<open>max_h\<close> is the largest bin, \<open>best_d\<close> the first bin
  that attains it and \<open>count\<close> the number of votes.
\<close>

definition spec_votes :: "float_consts \<Rightarrow> CrossArm list \<Rightarrow> nat \<Rightarrow> real list \<Rightarrow> nat \<Rightarrow> nat \<Rightarrow> int list" where
  "spec_votes K arms width DL x y =
     map (\<lambda>p. lround (DL ! (snd p * width + fst p)))
       (filter (\<lambda>p. DL ! (snd p * width + fst p) \<noteq> Invalid_Float K) (region_hf arms width x y))"

definition spec_histogram :: "int list \<Rightarrow> int \<Rightarrow> nat \<Rightarrow> int list" where
  "spec_histogram votes min_d n = map (\<lambda>b. int (count_list votes (int b + min_d))) [0..<n]"

definition spec_max_h :: "int list \<Rightarrow> int" where
  "spec_max_h bins = fold max bins 0"

primrec first_index :: "int list \<Rightarrow> int \<Rightarrow> nat" where
  "first_index [] v = 0"
| "first_index (h # hs) v = (if h = v then 0 else Suc (first_index hs v))"

definition spec_best_d :: "int list \<Rightarrow> nat" where
  "spec_best_d bins = (if spec_max_h bins = 0 then 0 else first_index bins (spec_max_h bins))"

definition spec_vote_pixel ::
  "float_consts \<Rightarrow> CrossArm list \<Rightarrow> nat \<Rightarrow> int \<Rightarrow> int \<Rightarrow> int \<Rightarrow> real \<Rightarrow> nat \<times> nat
     \<Rightarrow> real list \<Rightarrow> real list" where
  "spec_vote_pixel K arms width min_d max_d ts th pix DL =
     (let votes = spec_votes K arms width DL (fst pix) (snd pix);
          bins = spec_histogram votes min_d (nat (max_d - min_d));
          count = int (length votes);
          max_h = spec_max_h bins;
          best_d = spec_best_d bins
      in if DL ! (snd pix * width + fst pix) = Invalid_Float K
            \<and> count > ts \<and> real_of_int max_h / real_of_int count > th
         then DL[snd pix * width + fst pix := real_of_int (int best_d + min_d)]
         else DL)"

text \<open>After the pass over a list, the pixels that are no longer invalid are removed.\<close>

definition spec_vote_pass ::
  "float_consts \<Rightarrow> CrossArm list \<Rightarrow> nat \<Rightarrow> int \<Rightarrow> int \<Rightarrow> int \<Rightarrow> real
     \<Rightarrow> real list \<times> (nat \<times> nat) list \<Rightarrow> real list \<times> (nat \<times> nat) list" where
  "spec_vote_pass K arms width min_d max_d ts th =
     (\<lambda>(DL, pixels).
        (fold (spec_vote_pixel K arms width min_d max_d ts th) pixels DL,
         filter (\<lambda>p. fold (spec_vote_pixel K arms width min_d max_d ts th) pixels DL
                        ! (snd p * width + fst p) = Invalid_Float K) pixels))"

text \<open>An iteration visits the mismatches first, then the occlusions.\<close>

definition spec_vote_iteration ::
  "float_consts \<Rightarrow> CrossArm list \<Rightarrow> nat \<Rightarrow> int \<Rightarrow> int \<Rightarrow> int \<Rightarrow> real \<Rightarrow> refine_state \<Rightarrow> refine_state" where
  "spec_vote_iteration K arms width min_d max_d ts th =
     (\<lambda>(DL, occlusions, mismatches).
        (fst (spec_vote_pass K arms width min_d max_d ts th
                (fst (spec_vote_pass K arms width min_d max_d ts th (DL, mismatches)), occlusions)),
         snd (spec_vote_pass K arms width min_d max_d ts th
                (fst (spec_vote_pass K arms width min_d max_d ts th (DL, mismatches)), occlusions)),
         snd (spec_vote_pass K arms width min_d max_d ts th (DL, mismatches))))"

text \<open>
  The maps on which the voting is defined: \<open>width * height\<close> entries, every valid one
  rounding to a disparity of the range (so that its bin exists).
\<close>

definition disparities_in_range ::
  "float_consts \<Rightarrow> real list \<Rightarrow> nat \<Rightarrow> nat \<Rightarrow> int \<Rightarrow> int \<Rightarrow> bool" where
  "disparities_in_range K DL width height min_d max_d \<longleftrightarrow>
     length DL = height * width \<and>
     (\<forall>i<height * width. DL ! i \<noteq> Invalid_Float K \<longrightarrow>
          min_d \<le> lround (DL ! i) \<and> lround (DL ! i) < max_d)"

definition pixels_inside :: "(nat \<times> nat) list \<Rightarrow> nat \<Rightarrow> nat \<Rightarrow> bool" where
  "pixels_inside pixels width height \<longleftrightarrow> (\<forall>p\<in>set pixels. fst p < width \<and> snd p < height)"

chapter \<open>Properties\<close>

section \<open>Initialize is not atomic on failure\<close>






section \<open>Loops over pixels and disparities\<close>

lemma upto_snoc_nat: "[m..m + int (Suc n) - 1] = [m..m + int n - 1] @ [m + int n]"
  using upto_rec2 [of m "m + int n"] by simp

lemma wta_fold_inv:
  assumes "n \<le> length cl0"
  shows "case fold (wta_body c min_d) [min_d..min_d + int n - 1] (L, b0, cl0) of
           (mc, best, cl) \<Rightarrow>
             length cl = length cl0 \<and> (\<forall>k<n. cl ! k = c k) \<and>
             ((\<forall>k<n. L \<le> c k) \<and> mc = L \<and> best = b0
              \<or> (\<exists>d. is_first_argmin c n d \<and> best = min_d + int d \<and> mc = c d \<and> c d < L))"
  using assms
proof (induction n)
  case 0
  show ?case by simp
next
  case (Suc n)
  obtain mc best cl where f: "fold (wta_body c min_d) [min_d..min_d + int n - 1] (L, b0, cl0) = (mc, best, cl)"
    by (cases "fold (wta_body c min_d) [min_d..min_d + int n - 1] (L, b0, cl0)") auto
  from Suc f have len: "length cl = length cl0" and vals: "\<forall>k<n. cl ! k = c k"
    and alt: "(\<forall>k<n. L \<le> c k) \<and> mc = L \<and> best = b0
              \<or> (\<exists>d. is_first_argmin c n d \<and> best = min_d + int d \<and> mc = c d \<and> c d < L)"
    by auto
  have step: "fold (wta_body c min_d) [min_d..min_d + int (Suc n) - 1] (L, b0, cl0)
      = wta_body c min_d (min_d + int n) (mc, best, cl)"
    unfolding upto_snoc_nat by (simp add: f)
  have vals': "\<forall>k<Suc n. (cl[n := c n]) ! k = c k"
    using vals len Suc.prems by (auto simp: nth_list_update less_Suc_eq)
  show ?case
  proof (cases "mc > c n")
    case True
    have "is_first_argmin c (Suc n) n \<and> c n < L"
      using alt True unfolding is_first_argmin_def
      by (auto simp: less_Suc_eq)
    then show ?thesis unfolding step using True vals' len
      by (auto simp: wta_body_def Let_def)
  next
    case False
    have "(\<forall>k<Suc n. L \<le> c k) \<and> mc = L \<and> best = b0
              \<or> (\<exists>d. is_first_argmin c (Suc n) d \<and> best = min_d + int d \<and> mc = c d \<and> c d < L)"
      using alt False unfolding is_first_argmin_def
      by (auto simp: less_Suc_eq)
    then show ?thesis unfolding step using False vals' len
      by (auto simp: wta_body_def Let_def)
  qed
qed

lemma nested_fold_flat:
  assumes "0 < w"
  shows "fold (\<lambda>i. fold (g i) [0..<w]) [0..<h] s
       = fold (\<lambda>n. g (n div w) (n mod w)) [0..<h * w] s"
proof (induction h arbitrary: s)
  case 0
  show ?case by simp
next
  case (Suc h)
  have "[0..<h * w + w] = [0..<h * w] @ [h * w..<h * w + w]"
    by (rule upt_add_eq_append) simp
  moreover have "[h * w..<h * w + w] = map (\<lambda>j. j + h * w) [0..<w]"
    by (simp add: map_add_upt add.commute)
  ultimately have split: "[0..<Suc h * w] = [0..<h * w] @ map (\<lambda>j. j + h * w) [0..<w]"
    by (simp add: add.commute)
  have row: "fold (\<lambda>n. g (n div w) (n mod w)) (map (\<lambda>j. j + h * w) [0..<w]) t
           = fold (g h) [0..<w] t" for t
    unfolding fold_map comp_def
    by (rule fold_cong) (use assms in auto)
  show ?case
    unfolding split by (simp add: row Suc.IH)
qed

lemma for_pixels_flat:
  assumes "0 < w"
  shows "for_pixels w h body s0
       = fold (\<lambda>n s. Option.bind s (body (n div w) (n mod w))) [0..<h * w] (Some s0)"
  unfolding for_pixels_def by (rule nested_fold_flat [OF assms])

lemma flat_write_loop:
  assumes step: "\<And>n a t. n < N \<Longrightarrow> P t \<Longrightarrow> length a = length a0 \<Longrightarrow>
                   \<exists>t'. P t' \<and> body n (a, t) = Some (a[n := v n], t')"
    and "P t0" and "N \<le> length a0"
  shows "\<exists>a' t'. fold (\<lambda>n s. Option.bind s (body n)) [0..<N] (Some (a0, t0)) = Some (a', t')
           \<and> P t' \<and> length a' = length a0 \<and> (\<forall>m<N. a' ! m = v m)
           \<and> (\<forall>m\<ge>N. a' ! m = a0 ! m)"
  using step assms(3)
proof (induction N)
  case 0
  show ?case using assms(2) by simp
next
  case (Suc N)
  have "\<exists>a' t'. fold (\<lambda>n s. Option.bind s (body n)) [0..<N] (Some (a0, t0)) = Some (a', t')
           \<and> P t' \<and> length a' = length a0 \<and> (\<forall>m<N. a' ! m = v m)
           \<and> (\<forall>m\<ge>N. a' ! m = a0 ! m)"
  proof (rule Suc.IH)
    show "\<exists>t'. P t' \<and> body n (a, t) = Some (a[n := v n], t')"
      if "n < N" "P t" "length a = length a0" for n a t
      using Suc.prems(1) [of n t a] that by simp
    show "N \<le> length a0" using Suc.prems(2) by simp
  qed
  then obtain a' t' where f: "fold (\<lambda>n s. Option.bind s (body n)) [0..<N] (Some (a0, t0)) = Some (a', t')"
    and P: "P t'" and len: "length a' = length a0" and vals: "\<forall>m<N. a' ! m = v m"
    and rest: "\<forall>m\<ge>N. a' ! m = a0 ! m"
    by blast
  from Suc.prems(1) [of N t' a'] P len obtain t'' where
    P'': "P t''" and b: "body N (a', t') = Some (a'[N := v N], t'')" by auto
  have "fold (\<lambda>n s. Option.bind s (body n)) [0..<Suc N] (Some (a0, t0)) = Some (a'[N := v N], t'')"
    by (simp add: f b)
  moreover have "\<forall>m<Suc N. (a'[N := v N]) ! m = v m"
    using vals len Suc.prems(2) by (auto simp: nth_list_update less_Suc_eq)
  moreover have "\<forall>m\<ge>Suc N. (a'[N := v N]) ! m = a0 ! m"
    using rest by (auto simp: nth_list_update)
  ultimately show ?case using P'' len by auto
qed

lemma for_pixels_write:
  assumes step: "\<And>i j a t. i < h \<Longrightarrow> j < w \<Longrightarrow> P t \<Longrightarrow> length a = length a0 \<Longrightarrow>
                   \<exists>t'. P t' \<and> body i j (a, t) = Some (a[i * w + j := v i j], t')"
    and "P t0" and "h * w \<le> length a0"
  shows "\<exists>a' t'. for_pixels w h body (a0, t0) = Some (a', t')
           \<and> P t' \<and> length a' = length a0 \<and> (\<forall>i<h. \<forall>j<w. a' ! (i * w + j) = v i j)"
proof (cases "w = 0")
  case True
  have "fold (\<lambda>i. id) xs s = s" for xs :: "nat list" and s :: "('a list \<times> 'b) option"
    by (induction xs) simp_all
  then show ?thesis using True assms(2) by (simp add: for_pixels_def)
next
  case False
  then have w: "0 < w" by simp
  have st: "\<exists>t'. P t' \<and> body (n div w) (n mod w) (a, t)
              = Some (a[n := v (n div w) (n mod w)], t')"
    if "n < h * w" "P t" "length a = length a0" for n a t
  proof -
    have "n div w < h" using that(1) w by (simp add: less_mult_imp_div_less)
    moreover have "n mod w < w" using w by simp
    ultimately show ?thesis using step [of "n div w" "n mod w" t a] that by simp
  qed
  from flat_write_loop [of "h * w" P a0 "\<lambda>n. body (n div w) (n mod w)"
      "\<lambda>n. v (n div w) (n mod w)" t0, OF st assms(2) assms(3)]
  obtain a' t' where r: "fold (\<lambda>n s. Option.bind s (body (n div w) (n mod w))) [0..<h * w]
        (Some (a0, t0)) = Some (a', t')" "P t'" "length a' = length a0"
      "\<forall>m<h * w. a' ! m = v (m div w) (m mod w)" by blast
  have "a' ! (i * w + j) = v i j" if "i < h" "j < w" for i j
  proof -
    have "i * w + j < h * w"
    proof -
      have "i * w + j < i * w + w" using that by simp
      also have "\<dots> = Suc i * w" by simp
      also have "\<dots> \<le> h * w" using that(1) by (intro mult_le_mono1) simp
      finally show ?thesis .
    qed
    with r(4) have "a' ! (i * w + j) = v ((i * w + j) div w) ((i * w + j) mod w)" by blast
    then show ?thesis using that w by simp
  qed
  then show ?thesis using r by (auto simp: for_pixels_flat [OF w])
qed

lemma wta_left_body_eq:
  "wta_left_body cost_ptr width min_d max_d i j
     = wta_body (left_cost cost_ptr width (nat (max_d - min_d)) i j) min_d"
  by (intro ext) (simp add: wta_left_body_def wta_body_def left_cost_def Let_def split: prod.splits)

lemma wta_fold_result:
  assumes "min_d < max_d" and "length cl0 = nat (max_d - min_d)"
    and "\<exists>k<nat (max_d - min_d). c k < L"
  shows "\<exists>d cl. fold (wta_body c min_d) [min_d..max_d - 1] (L, b0, cl0) = (c d, min_d + int d, cl)
           \<and> is_first_argmin c (nat (max_d - min_d)) d \<and> length cl = length cl0
           \<and> (\<forall>k<nat (max_d - min_d). cl ! k = c k)"
proof -
  let ?n = "nat (max_d - min_d)"
  have up: "[min_d..max_d - 1] = [min_d..min_d + int ?n - 1]" using assms(1) by simp
  obtain mc best cl where f: "fold (wta_body c min_d) [min_d..min_d + int ?n - 1] (L, b0, cl0) = (mc, best, cl)"
    using prod_cases3 by blast
  from wta_fold_inv [where n = ?n and ?cl0.0 = cl0 and c = c and min_d = min_d and L = L and ?b0.0 = b0] assms(2) f
  have len: "length cl = length cl0" and vals: "\<forall>k<?n. cl ! k = c k"
    and alt: "(\<forall>k<?n. L \<le> c k) \<and> mc = L \<and> best = b0
              \<or> (\<exists>d. is_first_argmin c ?n d \<and> best = min_d + int d \<and> mc = c d \<and> c d < L)"
    by auto
  from assms(3) obtain k where "k < ?n" "c k < L" by blast
  then have "\<not> (\<forall>k<?n. L \<le> c k)" by force
  with alt obtain d where "is_first_argmin c ?n d" "best = min_d + int d" "mc = c d"
    by blast
  then show ?thesis using f len vals unfolding up by auto
qed

lemma ComputeDisparity_pixel_spec:
  assumes "min_d < max_d" and "length cl0 = nat (max_d - min_d)"
    and "\<exists>k<nat (max_d - min_d). left_cost cost_ptr width (nat (max_d - min_d)) i j k < Large_Float K"
  shows "\<exists>d cl. is_first_argmin (left_cost cost_ptr width (nat (max_d - min_d)) i j) (nat (max_d - min_d)) d
           \<and> length cl = nat (max_d - min_d)
           \<and> ComputeDisparity_pixel K cost_ptr width min_d max_d i j cl0
               = Some (spec_left_disparity K min_d (left_cost cost_ptr width (nat (max_d - min_d)) i j)
                         (nat (max_d - min_d)) d, cl)"
proof -
  let ?n = "nat (max_d - min_d)"
  let ?c = "left_cost cost_ptr width ?n i j"
  from wta_fold_result [OF assms(1,2), of ?c "Large_Float K" 0] assms(3)
  obtain d cl where f: "fold (wta_body ?c min_d) [min_d..max_d - 1] (Large_Float K, 0, cl0)
        = (?c d, min_d + int d, cl)"
    and am: "is_first_argmin ?c ?n d" and len: "length cl = length cl0"
    and vals: "\<forall>k<?n. cl ! k = ?c k" by blast
  have dn: "d < ?n" using am by (simp add: is_first_argmin_def)
  have bnd: "(min_d + int d = min_d \<or> min_d + int d = max_d - 1) \<longleftrightarrow> (d = 0 \<or> d = ?n - 1)"
    using dn assms(1) by auto
  have r1: "read_at cl (min_d + int d - 1 - min_d) = Some (?c (d - 1))" if "d \<noteq> 0"
  proof -
    have "d - 1 < ?n" using dn by simp
    moreover have "nat (min_d + int d - 1 - min_d) = d - 1" using that by simp
    moreover have "0 \<le> min_d + int d - 1 - min_d" using that by simp
    moreover have "min_d + int d - 1 - min_d < int (length cl)" using dn len assms(2) by linarith
    ultimately show ?thesis using vals by (simp add: read_at_def)
  qed
  have r2: "read_at cl (min_d + int d + 1 - min_d) = Some (?c (d + 1))" if "d \<noteq> ?n - 1"
  proof -
    have "d + 1 < ?n" using that dn by simp
    moreover have "nat (min_d + int d + 1 - min_d) = d + 1" by simp
    moreover have "min_d + int d + 1 - min_d < int (length cl)" using \<open>d + 1 < ?n\<close> len assms(2) by linarith
    ultimately show ?thesis using vals by (simp add: read_at_def)
  qed
  have sp: "subpixel (?c d) (min_d + int d) (?c (d - 1)) (?c (d + 1))
          = (let denom = ?c (d - 1) + ?c (d + 1) - 2 * ?c d
             in if denom \<noteq> 0
                then (real d + real_of_int min_d) + (?c (d - 1) - ?c (d + 1)) / (2 * denom)
                else real d + real_of_int min_d)"
    by (simp add: subpixel_def Let_def add.commute mult.commute)
  have "ComputeDisparity_pixel K cost_ptr width min_d max_d i j cl0
      = Some (spec_left_disparity K min_d ?c ?n d, cl)"
  proof (cases "d = 0 \<or> d = ?n - 1")
    case True
    then show ?thesis
      using bnd by (simp add: ComputeDisparity_pixel_def wta_left_body_eq f spec_left_disparity_def)
  next
    case False
    then have "\<not> (min_d + int d = min_d \<or> min_d + int d = max_d - 1)" using bnd by simp
    then show ?thesis
      using False r1 r2 sp
      by (simp add: ComputeDisparity_pixel_def wta_left_body_eq f spec_left_disparity_def)
  qed
  then show ?thesis using am len assms(2) by auto
qed

lemma is_first_argmin_unique:
  assumes "is_first_argmin c n d" "is_first_argmin c n d'"
  shows "d = d'"
proof (rule ccontr)
  assume "d \<noteq> d'"
  then consider "d < d'" | "d' < d" by linarith
  then show False
  proof cases
    case 1
    then have "c d' < c d" "c d \<le> c d'" using assms by (auto simp: is_first_argmin_def)
    then show False by simp
  next
    case 2
    then have "c d < c d'" "c d' \<le> c d" using assms by (auto simp: is_first_argmin_def)
    then show False by simp
  qed
qed

lemma first_argmin_is_first_argmin:
  "0 < n \<Longrightarrow> is_first_argmin c n (first_argmin c n)"
proof (induction n)
  case 0
  then show ?case by simp
next
  case (Suc n)
  show ?case
  proof (cases "n = 0")
    case True
    then show ?thesis by (simp add: is_first_argmin_def)
  next
    case False
    then have IH: "is_first_argmin c n (first_argmin c n)" using Suc.IH by simp
    show ?thesis
    proof (cases "c n < c (first_argmin c n)")
      case True
      have "c n < c k" if "k < n" for k
        using IH True that unfolding is_first_argmin_def by (meson less_le_trans)
      then show ?thesis using True False
        by (auto simp: is_first_argmin_def less_Suc_eq intro: less_imp_le)
    next
      case no: False
      then show ?thesis using IH False
        by (auto simp: is_first_argmin_def less_Suc_eq)
    qed
  qed
qed

lemma is_first_argmin_eq:
  "is_first_argmin c n d \<Longrightarrow> first_argmin c n = d"
proof -
  assume a: "is_first_argmin c n d"
  then have "0 < n" by (auto simp: is_first_argmin_def)
  from first_argmin_is_first_argmin [OF this] a show ?thesis
    by (rule is_first_argmin_unique)
qed

lemma ComputeDisparity_body_step:
  assumes "min_d < max_d" and "length t = nat (max_d - min_d)"
    and "\<exists>k<nat (max_d - min_d). left_cost cost_ptr width (nat (max_d - min_d)) i j k < Large_Float K"
  shows "\<exists>t'. length t' = nat (max_d - min_d)
         \<and> ComputeDisparity_body K cost_ptr width min_d max_d i j (a, t)
           = Some (a[i * width + j := spec_left_disparity K min_d
                       (left_cost cost_ptr width (nat (max_d - min_d)) i j) (nat (max_d - min_d))
                       (first_argmin (left_cost cost_ptr width (nat (max_d - min_d)) i j)
                          (nat (max_d - min_d)))], t')"
proof -
  from ComputeDisparity_pixel_spec [OF assms]
  obtain d cl where am: "is_first_argmin (left_cost cost_ptr width (nat (max_d - min_d)) i j)
        (nat (max_d - min_d)) d" and len: "length cl = nat (max_d - min_d)"
    and r: "ComputeDisparity_pixel K cost_ptr width min_d max_d i j t
             = Some (spec_left_disparity K min_d (left_cost cost_ptr width (nat (max_d - min_d)) i j)
                  (nat (max_d - min_d)) d, cl)" by blast
  show ?thesis
    unfolding ComputeDisparity_body_def is_first_argmin_eq [OF am]
    using r len by simp
qed

text \<open>
  Claim C3.  On a volume in which every pixel has a cost below \<open>Large_Float\<close> (all
  costs the pipeline produces are), \<open>ComputeDisparity\<close> makes no out-of-range access
  and stores, for every pixel \<open>(i, j)\<close> of the left view, the value the specification
  gives for the first arg-min index \<open>d\<close> of the pixel's costs: \<open>Invalid_Float\<close> when
  \<open>d\<close> is 0 or \<open>disp_range - 1\<close>, otherwise
  \<open>(d + min_disparity) + (c[d-1] - c[d+1]) / (2 * denom)\<close> with
  \<open>denom = c[d-1] + c[d+1] - 2 * c[d]\<close> when \<open>denom\<close> is not zero, and
  \<open>d + min_disparity\<close> when it is.
\<close>

theorem ComputeDisparity_spec:
  assumes "min_d < max_d"
    and "height * width \<le> length disparity0"
    and "\<forall>i<height. \<forall>j<width. \<exists>k<nat (max_d - min_d).
           left_cost cost_ptr width (nat (max_d - min_d)) i j k < Large_Float K"
  shows "\<exists>disparity. ComputeDisparity K cost_ptr width height min_d max_d disparity0 = Some disparity
           \<and> length disparity = length disparity0
           \<and> (\<forall>i<height. \<forall>j<width.
                 is_first_argmin (left_cost cost_ptr width (nat (max_d - min_d)) i j)
                   (nat (max_d - min_d))
                   (first_argmin (left_cost cost_ptr width (nat (max_d - min_d)) i j)
                      (nat (max_d - min_d)))
               \<and> disparity ! (i * width + j)
                   = spec_left_disparity K min_d
                       (left_cost cost_ptr width (nat (max_d - min_d)) i j) (nat (max_d - min_d))
                       (first_argmin (left_cost cost_ptr width (nat (max_d - min_d)) i j)
                          (nat (max_d - min_d))))"
proof -
  let ?n = "nat (max_d - min_d)"
  let ?c = "left_cost cost_ptr width ?n"
  let ?v = "\<lambda>i j. spec_left_disparity K min_d (?c i j) ?n (first_argmin (?c i j) ?n)"
  have n: "0 < ?n" using assms(1) by simp
  have "\<exists>a' t'. for_pixels width height (ComputeDisparity_body K cost_ptr width min_d max_d)
            (disparity0, replicate ?n 0) = Some (a', t')
         \<and> length t' = ?n \<and> length a' = length disparity0
         \<and> (\<forall>i<height. \<forall>j<width. a' ! (i * width + j) = ?v i j)"
  proof (rule for_pixels_write [where P = "\<lambda>t. length t = ?n"])
    show "length (replicate ?n (0::real)) = ?n" by simp
    show "height * width \<le> length disparity0" by (rule assms(2))
    show "\<exists>t'. length t' = ?n \<and> ComputeDisparity_body K cost_ptr width min_d max_d i j (a, t)
             = Some (a[i * width + j := ?v i j], t')"
      if "i < height" "j < width" "length t = ?n" "length a = length disparity0" for i j a t
      using ComputeDisparity_body_step [OF assms(1) that(3), of cost_ptr width i j K a] assms(3) that(1,2)
      by blast
  qed
  then obtain a' t' where r: "for_pixels width height (ComputeDisparity_body K cost_ptr width min_d max_d)
            (disparity0, replicate ?n 0) = Some (a', t')"
    and len: "length a' = length disparity0"
    and vals: "\<forall>i<height. \<forall>j<width. a' ! (i * width + j) = ?v i j"
    by blast
  have "ComputeDisparity K cost_ptr width height min_d max_d disparity0 = Some a'"
    using r assms(1) by (simp add: ComputeDisparity_def)
  then show ?thesis using len vals first_argmin_is_first_argmin [OF n] by blast
qed

section \<open>The right view\<close>

lemma wta_body_le:
  "mc \<le> L \<Longrightarrow> fst (wta_body c min_d d (mc, b, cl)) \<le> L"
  by (simp add: wta_body_def Let_def)

lemma wta_right_fold_eq:
  assumes "\<forall>d\<in>set ds. min_d \<le> d" and "mc \<le> Large_Float K"
  shows "fold (wta_right_body K cost_ptr width min_d max_d i j) ds (mc, b, cl)
       = fold (wta_body (right_cost K cost_ptr width (nat (max_d - min_d)) min_d i j) min_d) ds
           (mc, b, cl)"
  using assms
proof (induction ds arbitrary: mc b cl)
  case Nil
  show ?case by simp
next
  case (Cons d ds)
  let ?c = "right_cost K cost_ptr width (nat (max_d - min_d)) min_d i j"
  have d: "min_d \<le> d" using Cons.prems(1) by simp
  then obtain k where k: "d = int k + min_d"
    by (metis add.commute nonneg_int_cases diff_ge_0_iff_ge diff_add_cancel)
  have one: "wta_right_body K cost_ptr width min_d max_d i j d (mc, b, cl)
           = wta_body ?c min_d d (mc, b, cl)"
    unfolding k using Cons.prems(2)
    by (auto simp: wta_right_body_def wta_body_def right_cost_def Let_def)
  obtain mc' b' cl' where st: "wta_body ?c min_d d (mc, b, cl) = (mc', b', cl')"
    using prod_cases3 by blast
  have "mc' \<le> Large_Float K"
    using wta_body_le [OF Cons.prems(2), of ?c min_d d b cl] st by simp
  then have "fold (wta_right_body K cost_ptr width min_d max_d i j) ds (mc', b', cl')
           = fold (wta_body ?c min_d) ds (mc', b', cl')"
    using Cons.IH Cons.prems(1) by simp
  then show ?case by (simp add: one st)
qed

lemma subpixel_reads:
  assumes "min_d < max_d" and "length cl = nat (max_d - min_d)"
    and "\<forall>k<nat (max_d - min_d). cl ! k = c k"
    and "d < nat (max_d - min_d)" and "d \<noteq> 0" and "d \<noteq> nat (max_d - min_d) - 1"
  shows "read_at cl (min_d + int d - 1 - min_d) = Some (c (d - 1))"
    and "read_at cl (min_d + int d + 1 - min_d) = Some (c (d + 1))"
proof -
  let ?n = "nat (max_d - min_d)"
  have "d - 1 < ?n" using assms(4) by simp
  moreover have "nat (min_d + int d - 1 - min_d) = d - 1" using assms(5) by simp
  moreover have "0 \<le> min_d + int d - 1 - min_d" using assms(5) by simp
  moreover have "min_d + int d - 1 - min_d < int (length cl)" using assms(2,4) by linarith
  ultimately show "read_at cl (min_d + int d - 1 - min_d) = Some (c (d - 1))"
    using assms(3) by (simp add: read_at_def)
  have lt: "d + 1 < ?n" using assms(4,6) by simp
  moreover have "nat (min_d + int d + 1 - min_d) = d + 1" by simp
  moreover have "min_d + int d + 1 - min_d < int (length cl)" using lt assms(2) by linarith
  ultimately show "read_at cl (min_d + int d + 1 - min_d) = Some (c (d + 1))"
    using assms(3) by (simp add: read_at_def)
qed

lemma ComputeDisparityRight_pixel_spec:
  assumes "min_d < max_d" and "length cl0 = nat (max_d - min_d)"
    and "\<exists>k<nat (max_d - min_d).
           right_cost K cost_ptr width (nat (max_d - min_d)) min_d i j k < Large_Float K"
  shows "\<exists>cl. length cl = nat (max_d - min_d)
           \<and> ComputeDisparityRight_pixel K cost_ptr width min_d max_d i j cl0
               = Some (spec_right_disparity min_d
                         (right_cost K cost_ptr width (nat (max_d - min_d)) min_d i j)
                         (nat (max_d - min_d))
                         (first_argmin (right_cost K cost_ptr width (nat (max_d - min_d)) min_d i j)
                            (nat (max_d - min_d))), cl)"
proof -
  let ?n = "nat (max_d - min_d)"
  let ?c = "right_cost K cost_ptr width ?n min_d i j"
  have ge: "\<forall>d\<in>set [min_d..max_d - 1]. min_d \<le> d" by simp
  have feq: "fold (wta_right_body K cost_ptr width min_d max_d i j) [min_d..max_d - 1]
               (Large_Float K, 0, cl0)
           = fold (wta_body ?c min_d) [min_d..max_d - 1] (Large_Float K, 0, cl0)"
    by (rule wta_right_fold_eq [OF ge]) simp
  from wta_fold_result [OF assms(1,2), of ?c "Large_Float K" 0] assms(3)
  obtain d cl where f: "fold (wta_body ?c min_d) [min_d..max_d - 1] (Large_Float K, 0, cl0)
        = (?c d, min_d + int d, cl)"
    and am: "is_first_argmin ?c ?n d" and len: "length cl = length cl0"
    and vals: "\<forall>k<?n. cl ! k = ?c k" by blast
  have dn: "d < ?n" using am by (simp add: is_first_argmin_def)
  have fa: "first_argmin ?c ?n = d" by (rule is_first_argmin_eq [OF am])
  have bnd: "(min_d + int d = min_d \<or> min_d + int d = max_d - 1) \<longleftrightarrow> (d = 0 \<or> d = ?n - 1)"
    using dn assms(1) by auto
  have sp: "subpixel (?c d) (min_d + int d) (?c (d - 1)) (?c (d + 1))
          = (let denom = ?c (d - 1) + ?c (d + 1) - 2 * ?c d
             in if denom \<noteq> 0
                then (real d + real_of_int min_d) + (?c (d - 1) - ?c (d + 1)) / (2 * denom)
                else real d + real_of_int min_d)"
    by (simp add: subpixel_def Let_def add.commute mult.commute)
  have "ComputeDisparityRight_pixel K cost_ptr width min_d max_d i j cl0
      = Some (spec_right_disparity min_d ?c ?n d, cl)"
  proof (cases "d = 0 \<or> d = ?n - 1")
    case True
    then have "min_d + int d = min_d \<or> min_d + int d = max_d - 1" using bnd by simp
    then show ?thesis
      using True
      by (simp add: ComputeDisparityRight_pixel_def feq f spec_right_disparity_def add.commute)
  next
    case False
    then have nb: "\<not> (min_d + int d = min_d \<or> min_d + int d = max_d - 1)" using bnd by simp
    from False have d0: "d \<noteq> 0" and d1: "d \<noteq> ?n - 1" by auto
    have len': "length cl = ?n" using len assms(2) by simp
    note rd = subpixel_reads [OF assms(1) len' vals dn d0 d1]
    show ?thesis
      using False nb rd sp
      by (simp add: ComputeDisparityRight_pixel_def feq f spec_right_disparity_def)
  qed
  then show ?thesis using fa len assms(2) by auto
qed

lemma ComputeDisparityRight_body_step:
  assumes "min_d < max_d" and "length t = nat (max_d - min_d)"
    and "\<exists>k<nat (max_d - min_d).
           right_cost K cost_ptr width (nat (max_d - min_d)) min_d i j k < Large_Float K"
  shows "\<exists>t'. length t' = nat (max_d - min_d)
         \<and> ComputeDisparityRight_body K cost_ptr width min_d max_d i j (a, t)
           = Some (a[i * width + j := spec_right_disparity min_d
                       (right_cost K cost_ptr width (nat (max_d - min_d)) min_d i j)
                       (nat (max_d - min_d))
                       (first_argmin (right_cost K cost_ptr width (nat (max_d - min_d)) min_d i j)
                          (nat (max_d - min_d)))], t')"
proof -
  from ComputeDisparityRight_pixel_spec [OF assms]
  obtain cl where len: "length cl = nat (max_d - min_d)"
    and r: "ComputeDisparityRight_pixel K cost_ptr width min_d max_d i j t
             = Some (spec_right_disparity min_d
                  (right_cost K cost_ptr width (nat (max_d - min_d)) min_d i j)
                  (nat (max_d - min_d))
                  (first_argmin (right_cost K cost_ptr width (nat (max_d - min_d)) min_d i j)
                            (nat (max_d - min_d))), cl)" by blast
  show ?thesis
    unfolding ComputeDisparityRight_body_def using r len by simp
qed

lemma wta_right_fold_length:
  "length (snd (snd (fold (wta_right_body K cost_ptr width min_d max_d i j) ds (mc, b, cl))))
     = length cl"
proof (induction ds arbitrary: mc b cl)
  case Nil
  show ?case by simp
next
  case (Cons d ds)
  obtain mc' b' cl' where st: "wta_right_body K cost_ptr width min_d max_d i j d (mc, b, cl)
      = (mc', b', cl')"
    using prod_cases3 by blast
  then have "length cl' = length cl"
    by (auto simp: wta_right_body_def Let_def split: if_splits)
  then show ?case using Cons.IH [of mc' b' cl'] by (simp add: st)
qed

lemma ComputeDisparityRight_body_shape:
  assumes "ComputeDisparityRight_body K cost_ptr width min_d max_d i j (a, t) = Some (a', t')"
  shows "length t' = length t \<and> (\<exists>u. a' = a[i * width + j := u])"
proof -
  obtain mc b cl where f: "fold (wta_right_body K cost_ptr width min_d max_d i j)
      [min_d..max_d - 1] (Large_Float K, 0, t) = (mc, b, cl)"
    using prod_cases3 by blast
  have len: "length cl = length t"
    using wta_right_fold_length [of K cost_ptr width min_d max_d i j "[min_d..max_d - 1]"
        "Large_Float K" 0 t]
    by (simp add: f)
  from assms obtain v where p: "ComputeDisparityRight_pixel K cost_ptr width min_d max_d i j t
      = Some (v, t')" and a': "a' = a[i * width + j := v]"
    by (auto simp: ComputeDisparityRight_body_def split: option.splits)
  from p have "t' = cl"
    by (auto simp: ComputeDisparityRight_pixel_def f split: if_splits option.splits)
  then show ?thesis using len a' by blast
qed

lemma flat_partial_write:
  assumes shape: "\<And>n a t a' t'. n < N \<Longrightarrow> P t \<Longrightarrow> body n (a, t) = Some (a', t') \<Longrightarrow>
                   P t' \<and> (\<exists>u. a' = a[n := u])"
    and step: "\<And>n a t a' t'. n < N \<Longrightarrow> Q n \<Longrightarrow> P t \<Longrightarrow> body n (a, t) = Some (a', t') \<Longrightarrow>
                   a' = a[n := v n]"
    and "P t0" and "N \<le> length a0"
    and "fold (\<lambda>n s. Option.bind s (body n)) [0..<N] (Some (a0, t0)) = Some (a', t')"
  shows "P t' \<and> length a' = length a0 \<and> (\<forall>m<N. Q m \<longrightarrow> a' ! m = v m)"
  using shape step assms(4,5)
proof (induction N arbitrary: a' t')
  case 0
  then show ?case using assms(3) by simp
next
  case (Suc N)
  from Suc.prems(4) obtain a1 t1 where
    f: "fold (\<lambda>n s. Option.bind s (body n)) [0..<N] (Some (a0, t0)) = Some (a1, t1)"
    and b: "body N (a1, t1) = Some (a', t')"
    by (cases "fold (\<lambda>n s. Option.bind s (body n)) [0..<N] (Some (a0, t0))") auto
  have IH: "P t1 \<and> length a1 = length a0 \<and> (\<forall>m<N. Q m \<longrightarrow> a1 ! m = v m)"
  proof (rule Suc.IH [OF _ _ _ f])
    show "P t'' \<and> (\<exists>u. a'' = a[n := u])"
      if "n < N" "P t" "body n (a, t) = Some (a'', t'')" for n a t a'' t''
      using Suc.prems(1) [of n t a a'' t''] that by simp
    show "a'' = a[n := v n]"
      if "n < N" "Q n" "P t" "body n (a, t) = Some (a'', t'')" for n a t a'' t''
      using Suc.prems(2) [of n t a a'' t''] that by simp
    show "N \<le> length a0" using Suc.prems(3) by simp
  qed
  from Suc.prems(1) [of N t1 a1 a' t'] IH b obtain u where
    P': "P t'" and a': "a' = a1[N := u]" by auto
  have "a' ! m = v m" if "m < Suc N" "Q m" for m
  proof (cases "m = N")
    case True
    from Suc.prems(2) [of N t1 a1 a' t'] that(2) True IH b have "a' = a1[N := v N]" by simp
    then show ?thesis using True IH Suc.prems(3) by simp
  next
    case False
    then have "m < N" using that(1) by simp
    then show ?thesis using IH that(2) False a' by simp
  qed
  then show ?case using P' a' IH by simp
qed

lemma for_pixels_partial_write:
  assumes shape: "\<And>i j a t a' t'. i < h \<Longrightarrow> j < w \<Longrightarrow> P t \<Longrightarrow> body i j (a, t) = Some (a', t') \<Longrightarrow>
                   P t' \<and> (\<exists>u. a' = a[i * w + j := u])"
    and step: "\<And>i j a t a' t'. i < h \<Longrightarrow> j < w \<Longrightarrow> Q i j \<Longrightarrow> P t \<Longrightarrow>
                   body i j (a, t) = Some (a', t') \<Longrightarrow> a' = a[i * w + j := v i j]"
    and "P t0" and "h * w \<le> length a0"
    and "for_pixels w h body (a0, t0) = Some (a', t')"
    and "i < h" "j < w" "Q i j"
  shows "a' ! (i * w + j) = v i j"
proof -
  have w: "0 < w" using assms(7) by simp
  have dm: "n div w < h" "n mod w < w" "n div w * w + n mod w = n" if "n < h * w" for n
    using that w by (simp_all add: less_mult_imp_div_less)
  have r: "fold (\<lambda>n s. Option.bind s (body (n div w) (n mod w))) [0..<h * w] (Some (a0, t0))
        = Some (a', t')"
    using assms(5) by (simp add: for_pixels_flat [OF w])
  have "P t' \<and> length a' = length a0
      \<and> (\<forall>m<h * w. Q (m div w) (m mod w) \<longrightarrow> a' ! m = v (m div w) (m mod w))"
  proof (rule flat_partial_write [where body = "\<lambda>n. body (n div w) (n mod w)" and P = P
        and Q = "\<lambda>n. Q (n div w) (n mod w)" and v = "\<lambda>n. v (n div w) (n mod w)"
        and N = "h * w" and ?a0.0 = a0 and ?t0.0 = t0 and a' = a' and t' = t'])
    show "P t0" by (rule assms(3))
    show "h * w \<le> length a0" by (rule assms(4))
    show "fold (\<lambda>n s. Option.bind s (body (n div w) (n mod w))) [0..<h * w] (Some (a0, t0))
        = Some (a', t')" by (rule r)
    show "P t'' \<and> (\<exists>u. a'' = a[n := u])"
      if "n < h * w" "P t" "body (n div w) (n mod w) (a, t) = Some (a'', t'')" for n a t a'' t''
      using shape [OF dm(1,2) [OF that(1)] that(2,3)] dm(3) [OF that(1)] by simp
    show "a'' = a[n := v (n div w) (n mod w)]"
      if "n < h * w" "Q (n div w) (n mod w)" "P t"
        "body (n div w) (n mod w) (a, t) = Some (a'', t'')" for n a t a'' t''
      using step [OF dm(1,2) [OF that(1)] that(2,3,4)] dm(3) [OF that(1)] by simp
  qed
  moreover have "i * w + j < h * w"
  proof -
    have "i * w + j < i * w + w" using assms(7) by simp
    also have "\<dots> = Suc i * w" by simp
    also have "\<dots> \<le> h * w" using assms(6) by (intro mult_le_mono1) simp
    finally show ?thesis .
  qed
  moreover have "(i * w + j) div w = i" "(i * w + j) mod w = j" using assms(7) by simp_all
  ultimately show ?thesis using assms(8) by (metis (no_types, lifting))
qed

text \<open>
  Claim C4, as amended.  Let the right-view pixel \<open>(i, j)\<close> have a candidate inside the
  image with a cost below \<open>Large_Float\<close>.  Then the iteration of the pixel loops of
  \<open>ComputeDisparityRight\<close> at \<open>(i, j)\<close>, from any contents of the map and of
  \<open>cost_local\<close>, stores at \<open>i * width + j\<close> the value of the specification: over the
  indices \<open>d\<close> of \<open>[0, disp_range)\<close> it minimises the cost
  \<open>C[i, j + d + min_disparity, d]\<close>, a candidate whose column \<open>j + d + min_disparity\<close>
  is outside \<open>[0, width)\<close> counting as \<open>Large_Float\<close>; when the first arg-min index is
  0 or \<open>disp_range - 1\<close> it records the integer \<open>d + min_disparity\<close>, and the parabola
  fit otherwise.  Whenever the whole run returns a map (no other pixel reads
  \<open>cost_local\<close> out of range), the map holds this value at the pixel.
\<close>

theorem ComputeDisparityRight_spec:
  assumes "min_d < max_d" and "i < height" and "j < width"
    and "\<exists>k<nat (max_d - min_d).
           right_cost K cost_ptr width (nat (max_d - min_d)) min_d i j k < Large_Float K"
    and "length cost_local = nat (max_d - min_d)"
    and "height * width \<le> length disparity0"
  shows "is_first_argmin (right_cost K cost_ptr width (nat (max_d - min_d)) min_d i j)
           (nat (max_d - min_d))
           (first_argmin (right_cost K cost_ptr width (nat (max_d - min_d)) min_d i j)
              (nat (max_d - min_d)))
       \<and> map_option fst (ComputeDisparityRight_body K cost_ptr width min_d max_d i j
                           (disparity, cost_local))
           = Some (disparity[i * width + j := spec_right_disparity min_d
                       (right_cost K cost_ptr width (nat (max_d - min_d)) min_d i j)
                       (nat (max_d - min_d))
                       (first_argmin (right_cost K cost_ptr width (nat (max_d - min_d)) min_d i j)
                          (nat (max_d - min_d)))])
       \<and> (\<forall>result. ComputeDisparityRight K cost_ptr width height min_d max_d disparity0
                      = Some result
             \<longrightarrow> result ! (i * width + j)
                   = spec_right_disparity min_d
                       (right_cost K cost_ptr width (nat (max_d - min_d)) min_d i j)
                       (nat (max_d - min_d))
                       (first_argmin (right_cost K cost_ptr width (nat (max_d - min_d)) min_d i j)
                          (nat (max_d - min_d))))"
proof -
  let ?n = "nat (max_d - min_d)"
  let ?c = "right_cost K cost_ptr width ?n min_d"
  let ?v = "\<lambda>i j. spec_right_disparity min_d (?c i j) ?n (first_argmin (?c i j) ?n)"
  let ?Q = "\<lambda>i j. \<exists>k<?n. ?c i j k < Large_Float K"
  have n: "0 < ?n" using assms(1) by simp
  have am: "is_first_argmin (?c i j) ?n (first_argmin (?c i j) ?n)"
    by (rule first_argmin_is_first_argmin [OF n])
  from ComputeDisparityRight_body_step [OF assms(1,5,4), of disparity]
  have one: "map_option fst (ComputeDisparityRight_body K cost_ptr width min_d max_d i j
                (disparity, cost_local)) = Some (disparity[i * width + j := ?v i j])"
    by auto
  have run: "result ! (i * width + j) = ?v i j"
    if r: "ComputeDisparityRight K cost_ptr width height min_d max_d disparity0 = Some result"
    for result
  proof -
    from r assms(1) obtain t' where fp: "for_pixels width height
          (ComputeDisparityRight_body K cost_ptr width min_d max_d)
          (disparity0, replicate ?n 0) = Some (result, t')"
      by (auto simp: ComputeDisparityRight_def)
    show ?thesis
    proof (rule for_pixels_partial_write [where P = "\<lambda>t. length t = ?n" and Q = ?Q
          and v = ?v and body = "ComputeDisparityRight_body K cost_ptr width min_d max_d"
          and h = height and w = width and ?a0.0 = disparity0
          and ?t0.0 = "replicate ?n 0" and t' = t'])
      show "height * width \<le> length disparity0" by (rule assms(6))
      show "for_pixels width height (ComputeDisparityRight_body K cost_ptr width min_d max_d)
          (disparity0, replicate ?n 0) = Some (result, t')" by (rule fp)
      show "i < height" "j < width" by (rule assms(2), rule assms(3))
      show "?Q i j" by (rule assms(4))
      show "length (replicate ?n (0::real)) = ?n" by simp
      show "length t'' = ?n \<and> (\<exists>u. a'' = a[i' * width + j' := u])"
        if "length t = ?n"
          "ComputeDisparityRight_body K cost_ptr width min_d max_d i' j' (a, t) = Some (a'', t'')"
        for i' j' a t a'' t''
        using ComputeDisparityRight_body_shape [OF that(2)] that(1) by simp
      show "a'' = a[i' * width + j' := ?v i' j']"
        if "?Q i' j'" "length t = ?n"
          "ComputeDisparityRight_body K cost_ptr width min_d max_d i' j' (a, t) = Some (a'', t'')"
        for i' j' a t a'' t''
        using ComputeDisparityRight_body_step [OF assms(1) that(2,1), of a] that(3) by auto
    qed
  qed
  from am one run show ?thesis by blast
qed

section \<open>The disparity picker on concrete volumes\<close>

lemma list2_eq:
  assumes "length xs = 2" "xs ! 0 = a" "xs ! 1 = b"
  shows "xs = [a, b]"
proof -
  from assms(1) obtain x y where "xs = [x, y]"
    by (cases xs; cases "tl xs") auto
  with assms(2,3) show ?thesis by simp
qed

theorem ComputeDisparity_spec_witness:
  "ComputeDisparity K0 [3, 1, 2, 1, 5, 5] 2 1 0 3 [9, 9] = Some [7 / 6, Invalid_Float K0]"
proof -
  let ?C = "[3, 1, 2, 1, 5, 5] :: real list"
  have h1: "(0::int) < 3" by simp
  have h2: "1 * 2 \<le> length [9, 9 :: real]" by simp
  have c0: "left_cost ?C 2 (nat (3 - 0)) 0 0 0 < Large_Float K0"
    and c1: "left_cost ?C 2 (nat (3 - 0)) 0 1 0 < Large_Float K0"
    by (simp_all add: left_cost_def K0_def)
  have h3: "\<forall>i<1. \<forall>j<2. \<exists>k<nat (3 - 0). left_cost ?C 2 (nat (3 - 0)) i j k < Large_Float K0"
  proof (intro allI impI)
    fix i j :: nat assume "i < 1" "j < 2"
    then have "i = 0" "j = 0 \<or> j = 1" by auto
    then show "\<exists>k<nat (3 - 0). left_cost ?C 2 (nat (3 - 0)) i j k < Large_Float K0"
      using c0 c1 by (intro exI [of _ 0]) auto
  qed
  from ComputeDisparity_spec [OF h1 h2 h3]
  obtain disparity where r: "ComputeDisparity K0 ?C 2 1 0 3 [9, 9] = Some disparity"
    and len: "length disparity = length [9, 9 :: real]"
    and vals: "\<forall>i<1. \<forall>j<2. disparity ! (i * 2 + j)
         = spec_left_disparity K0 0 (left_cost ?C 2 (nat (3 - 0)) i j) (nat (3 - 0))
             (first_argmin (left_cost ?C 2 (nat (3 - 0)) i j) (nat (3 - 0)))"
    by blast
  have e0: "spec_left_disparity K0 0 (left_cost ?C 2 (nat (3 - 0)) 0 0) (nat (3 - 0))
             (first_argmin (left_cost ?C 2 (nat (3 - 0)) 0 0) (nat (3 - 0))) = 7 / 6"
    by code_simp
  have e1: "spec_left_disparity K0 0 (left_cost ?C 2 (nat (3 - 0)) 0 1) (nat (3 - 0))
             (first_argmin (left_cost ?C 2 (nat (3 - 0)) 0 1) (nat (3 - 0))) = Invalid_Float K0"
    by code_simp
  have "disparity ! 0 = 7 / 6" using vals [rule_format, of 0 0] e0 by simp
  moreover have "disparity ! 1 = Invalid_Float K0" using vals [rule_format, of 0 1] e1 by simp
  ultimately have "disparity = [7 / 6, Invalid_Float K0]"
    using len by (intro list2_eq) simp_all
  with r show ?thesis by simp
qed

text \<open>
  With \<open>min_disparity = -1\<close>, \<open>max_disparity = 1\<close> on a 2 x 1 image whose volume is
  \<open>[5, 2, 3, 1]\<close>, the source records 0 for the right pixel \<open>(0, 0)\<close>: its only
  candidate inside the image is the disparity 0 (index 1, column 0, cost 2).  Read by
  index, as the claim words it, the candidates are \<open>C[0, 0, 0] = 5\<close> and
  \<open>C[0, 1, 1] = 1\<close>, the arg-min index is 1 and the recorded integer would be 1.
\<close>

theorem ComputeDisparityRight_claim_counterexample:
  "ComputeDisparityRight K0 [5, 2, 3, 1] 2 1 (-1) 1 [9, 9] = Some [0, 0]
   \<and> claimed_right_disparity (-1) (claimed_right_cost K0 [5, 2, 3, 1] 2 2 0 0) 2
         (first_argmin (claimed_right_cost K0 [5, 2, 3, 1] 2 2 0 0) 2) = 1
   \<and> the (ComputeDisparityRight K0 [5, 2, 3, 1] 2 1 (-1) 1 [9, 9]) ! 0
       \<noteq> claimed_right_disparity (-1) (claimed_right_cost K0 [5, 2, 3, 1] 2 2 0 0) 2
         (first_argmin (claimed_right_cost K0 [5, 2, 3, 1] 2 2 0 0) 2)"
  by code_simp

text \<open>
  With \<open>min_disparity = 1\<close>, \<open>max_disparity = 4\<close> on a 4 x 1 image, the right pixel
  \<open>(0, 0)\<close> has the candidates \<open>C[0, 1, 0] = 5\<close>, \<open>C[0, 2, 1] = 1\<close> and \<open>C[0, 3, 2] = 3\<close>:
  the arg-min index is 1 and the parabola fit gives \<open>2 + 1/6\<close>.  The last pixel of the
  row has no candidate, so the run as a whole reads \<open>cost_local\<close> out of range.  With
  \<open>min_disparity = -1\<close> the run of the 2 x 1 example above returns a map.
\<close>

theorem ComputeDisparityRight_spec_witness:
  "map_option fst (ComputeDisparityRight_body K0 [0, 0, 0, 5, 0, 0, 0, 1, 0, 0, 0, 3] 4 1 4 0 0
      ([9, 9, 9, 9], [0, 0, 0])) = Some [13 / 6, 9, 9, 9]
   \<and> ComputeDisparityRight K0 [0, 0, 0, 5, 0, 0, 0, 1, 0, 0, 0, 3] 4 1 1 4 [9, 9, 9, 9] = None
   \<and> ComputeDisparityRight K0 [5, 2, 3, 1] 2 1 (-1) 1 [9, 9] \<noteq> None
   \<and> the (ComputeDisparityRight K0 [5, 2, 3, 1] 2 1 (-1) 1 [9, 9]) ! (0 * 2 + 0) = 0"
proof -
  let ?C = "[0, 0, 0, 5, 0, 0, 0, 1, 0, 0, 0, 3] :: real list"
  let ?D = "[5, 2, 3, 1] :: real list"
  have a1: "(1::int) < 4" by simp
  have a2: "(0::nat) < 1" "(0::nat) < 4" by simp_all
  have a3: "\<exists>k<nat (4 - 1). right_cost K0 ?C 4 (nat (4 - 1)) 1 0 0 k < Large_Float K0"
    by (intro exI [of _ 0]) (simp add: right_cost_def K0_def)
  have a4: "length [0, 0, 0 :: real] = nat (4 - 1)" by simp
  have a5: "1 * 4 \<le> length [9, 9, 9, 9 :: real]" by simp
  have va: "spec_right_disparity 1 (right_cost K0 ?C 4 (nat (4 - 1)) 1 0 0) (nat (4 - 1))
             (first_argmin (right_cost K0 ?C 4 (nat (4 - 1)) 1 0 0) (nat (4 - 1))) = 13 / 6"
    by code_simp
  have none: "ComputeDisparityRight K0 ?C 4 1 1 4 [9, 9, 9, 9] = None"
    by code_simp
  have b1: "(- 1 :: int) < 1" by simp
  have b2: "(0::nat) < 1" "(0::nat) < 2" by simp_all
  have b3: "\<exists>k<nat (1 - (- 1)). right_cost K0 ?D 2 (nat (1 - (- 1))) (- 1) 0 0 k < Large_Float K0"
    by (intro exI [of _ 1]) (simp add: right_cost_def K0_def)
  have b4: "length [0, 0 :: real] = nat (1 - (- 1))" by simp
  have b5: "1 * 2 \<le> length [9, 9 :: real]" by simp
  have vb: "spec_right_disparity (- 1) (right_cost K0 ?D 2 (nat (1 - (- 1))) (- 1) 0 0)
             (nat (1 - (- 1)))
             (first_argmin (right_cost K0 ?D 2 (nat (1 - (- 1))) (- 1) 0 0) (nat (1 - (- 1)))) = 0"
    by code_simp
  have some: "ComputeDisparityRight K0 ?D 2 1 (- 1) 1 [9, 9] = Some [0, 0]"
    by code_simp
  from ComputeDisparityRight_spec [OF a1 a2 a3 a4 a5, of "[9, 9, 9, 9]"]
  have A: "map_option fst (ComputeDisparityRight_body K0 ?C 4 1 4 0 0 ([9, 9, 9, 9], [0, 0, 0]))
      = Some [13 / 6, 9, 9, 9]"
    unfolding va by simp
  from ComputeDisparityRight_spec [OF b1 b2 b3 b4 b5, of "[9, 9]"] some
  have B: "[0, 0 :: real] ! (0 * 2 + 0)
      = spec_right_disparity (- 1) (right_cost K0 ?D 2 (nat (1 - (- 1))) (- 1) 0 0)
             (nat (1 - (- 1)))
             (first_argmin (right_cost K0 ?D 2 (nat (1 - (- 1))) (- 1) 0 0) (nat (1 - (- 1))))"
    by blast
  show ?thesis using A none some B vb by simp
qed

section \<open>Arm lengths\<close>

lemma arm_loop_spec:
  assumes "n + remaining = nat (min L1 MAX_ARM_LENGTH)"
    and "unat len = n"
    and "n > 0 \<longrightarrow> walk (n - 1) = Some color_last"
    and "\<forall>m<n. step_accepted walk color0 L1 L2 t1 t2 m"
  shows "largest_accepted_prefix walk color0 L1 L2 t1 t2
           (unat (arm_loop walk color0 L2 t1 t2 remaining n color_last len))"
  using assms
proof (induction remaining arbitrary: n color_last len)
  case 0
  from "0.prems"(1) have "n = nat (min L1 MAX_ARM_LENGTH)" by simp
  then have "\<not> int n < min L1 MAX_ARM_LENGTH" by linarith
  then have "\<not> step_accepted walk color0 L1 L2 t1 t2 n" unfolding step_accepted_def by blast
  then show ?case using 0 by (simp add: largest_accepted_prefix_def)
next
  case (Suc remaining)
  have lim: "int n < min L1 MAX_ARM_LENGTH" using Suc.prems(1) by linarith
  have n255: "n < 255" using lim by (simp add: MAX_ARM_LENGTH_def)
  show ?case
  proof (cases "walk n")
    case None
    then have "\<not> step_accepted walk color0 L1 L2 t1 t2 n" by (simp add: step_accepted_def)
    then show ?thesis using None Suc.prems by (simp add: largest_accepted_prefix_def)
  next
    case (Some color)
    show ?thesis
    proof (cases "step_accepted walk color0 L1 L2 t1 t2 n")
      case False
      then have brk: "ColorDist color color0 \<ge> t1 \<or> (n > 0 \<and> ColorDist color color_last \<ge> t1)
                 \<or> (int n + 1 > L2 \<and> ColorDist color color0 \<ge> t2)"
        using Some lim Suc.prems(3) by (auto simp: step_accepted_def)
      then have "arm_loop walk color0 L2 t1 t2 (Suc remaining) n color_last len = len"
        using Some by (auto simp: Let_def)
      then show ?thesis using False Suc.prems by (simp add: largest_accepted_prefix_def)
    next
      case True
      then have go: "\<not> (ColorDist color color0 \<ge> t1)" "\<not> (n > 0 \<and> ColorDist color color_last \<ge> t1)"
          "\<not> (int n + 1 > L2 \<and> ColorDist color color0 \<ge> t2)"
        using Some Suc.prems(3) by (auto simp: step_accepted_def)
      then have eq: "arm_loop walk color0 L2 t1 t2 (Suc remaining) n color_last len
               = arm_loop walk color0 L2 t1 t2 remaining (n + 1) color (len + 1)"
        using Some by (auto simp: Let_def)
      have len': "unat (len + 1) = n + 1"
        using Suc.prems(2) n255 by (simp add: unat_word_ariths)
      have acc: "\<forall>m<n + 1. step_accepted walk color0 L1 L2 t1 t2 m"
        using Suc.prems(4) True by (auto simp: less_Suc_eq)
      show ?thesis unfolding eq
        by (rule Suc.IH) (use Suc.prems(1) len' Some acc in auto)
    qed
  qed
qed

lemma find_arm_spec:
  "largest_accepted_prefix walk color0 L1 L2 t1 t2 (unat (find_arm walk color0 L1 L2 t1 t2))"
  unfolding find_arm_def by (rule arm_loop_spec) simp_all

lemma accepted_inside:
  "step_accepted walk color0 L1 L2 t1 t2 n \<Longrightarrow> walk n \<noteq> None"
  by (auto simp: step_accepted_def split: option.splits)

lemma prefix_walk_left:
  assumes "largest_accepted_prefix (walk_left img width x y) color0 L1 L2 t1 t2 a"
  shows "a \<le> x"
proof (rule ccontr)
  assume "\<not> a \<le> x"
  then have "x < a" by simp
  then have "walk_left img width x y x \<noteq> None"
    using assms accepted_inside unfolding largest_accepted_prefix_def by blast
  then show False by (simp add: walk_left_def)
qed

lemma prefix_walk_up:
  assumes "largest_accepted_prefix (walk_up img width x y) color0 L1 L2 t1 t2 a"
  shows "a \<le> y"
proof (rule ccontr)
  assume "\<not> a \<le> y"
  then have "y < a" by simp
  then have "walk_up img width x y y \<noteq> None"
    using assms accepted_inside unfolding largest_accepted_prefix_def by blast
  then show False by (simp add: walk_up_def)
qed

lemma prefix_walk_right:
  assumes "largest_accepted_prefix (walk_right img width x y) color0 L1 L2 t1 t2 a"
    and "x < width"
  shows "x + a < width"
proof (rule ccontr)
  assume "\<not> x + a < width"
  then have "width - x - 1 < a" using assms(2) by simp
  then have "walk_right img width x y (width - x - 1) \<noteq> None"
    using assms(1) accepted_inside unfolding largest_accepted_prefix_def by blast
  then show False using assms(2) by (simp add: walk_right_def)
qed

lemma prefix_walk_down:
  assumes "largest_accepted_prefix (walk_down img width height x y) color0 L1 L2 t1 t2 a"
    and "y < height"
  shows "y + a < height"
proof (rule ccontr)
  assume "\<not> y + a < height"
  then have "height - y - 1 < a" using assms(2) by simp
  then have "walk_down img width height x y (height - y - 1) \<noteq> None"
    using assms(1) accepted_inside unfolding largest_accepted_prefix_def by blast
  then show False using assms(2) by (simp add: walk_down_def)
qed

section \<open>Loops that fill an array pixel by pixel\<close>

lemma flat_fill:
  assumes "N \<le> length a0"
  shows "length (fold (\<lambda>n a. a[n := v n]) [0..<N] a0) = length a0
       \<and> (\<forall>m<N. fold (\<lambda>n a. a[n := v n]) [0..<N] a0 ! m = v m)
       \<and> (\<forall>m\<ge>N. fold (\<lambda>n a. a[n := v n]) [0..<N] a0 ! m = a0 ! m)"
  using assms
proof (induction N)
  case 0
  show ?case by simp
next
  case (Suc N)
  then have IH: "length (fold (\<lambda>n a. a[n := v n]) [0..<N] a0) = length a0"
      "\<forall>m<N. fold (\<lambda>n a. a[n := v n]) [0..<N] a0 ! m = v m"
      "\<forall>m\<ge>N. fold (\<lambda>n a. a[n := v n]) [0..<N] a0 ! m = a0 ! m"
    by simp_all
  show ?case using IH Suc.prems by (auto simp: nth_list_update less_Suc_eq)
qed

lemma pixel_index:
  fixes x y w h :: nat
  assumes "y < h" "x < w"
  shows "y * w + x < h * w" and "(y * w + x) div w = y" and "(y * w + x) mod w = x"
proof -
  have "y * w + x < y * w + w" using assms(2) by simp
  also have "\<dots> = Suc y * w" by simp
  also have "\<dots> \<le> h * w" using assms(1) by (intro mult_le_mono1) simp
  finally show "y * w + x < h * w" .
  show "(y * w + x) div w = y" "(y * w + x) mod w = x" using assms(2) by simp_all
qed

lemma nested_fill:
  assumes "h * w \<le> length a0"
  shows "length (fold (\<lambda>y. fold (\<lambda>x a. a[y * w + x := v y x]) [0..<w]) [0..<h] a0) = length a0"
    and "y < h \<Longrightarrow> x < w \<Longrightarrow>
         fold (\<lambda>y. fold (\<lambda>x a. a[y * w + x := v y x]) [0..<w]) [0..<h] a0 ! (y * w + x) = v y x"
proof -
  let ?r = "fold (\<lambda>y. fold (\<lambda>x a. a[y * w + x := v y x]) [0..<w]) [0..<h] a0"
  have r: "length ?r = length a0 \<and> (\<forall>y<h. \<forall>x<w. ?r ! (y * w + x) = v y x)"
  proof (cases "w = 0")
    case True
    have "fold (\<lambda>i. id) xs s = s" for xs :: "nat list" and s :: "'a list"
      by (induction xs) simp_all
    then show ?thesis using True by simp
  next
    case False
    then have w: "0 < w" by simp
    have flat: "?r = fold (\<lambda>n a. a[n := v (n div w) (n mod w)]) [0..<h * w] a0"
      unfolding nested_fold_flat [OF w, of "\<lambda>y x a. a[y * w + x := v y x]"]
      by (rule fold_cong) (use w in auto)
    show ?thesis
      unfolding flat
      using flat_fill [OF assms, of "\<lambda>n. v (n div w) (n mod w)"] pixel_index [of _ h _ w]
      by auto
  qed
  from r show "length ?r = length a0" by simp
  from r show "y < h \<Longrightarrow> x < w \<Longrightarrow> ?r ! (y * w + x) = v y x" by simp
qed

section \<open>The arms of every pixel\<close>

lemma BuildArms_nth:
  assumes "x < width" "y < height" "height * width \<le> length arms0"
  shows "BuildArms img width height L1 L2 t1 t2 arms0 ! (y * width + x)
       = \<lparr>arm_left = fst (FindHorizontalArm img width L1 L2 t1 t2 x y),
          arm_right = snd (FindHorizontalArm img width L1 L2 t1 t2 x y),
          arm_top = fst (FindVerticalArm img width height L1 L2 t1 t2 x y),
          arm_bottom = snd (FindVerticalArm img width height L1 L2 t1 t2 x y)\<rparr>"
proof -
  let ?v = "\<lambda>y x. \<lparr>arm_left = fst (FindHorizontalArm img width L1 L2 t1 t2 x y),
          arm_right = snd (FindHorizontalArm img width L1 L2 t1 t2 x y),
          arm_top = fst (FindVerticalArm img width height L1 L2 t1 t2 x y),
          arm_bottom = snd (FindVerticalArm img width height L1 L2 t1 t2 x y)\<rparr>"
  have body: "BuildArms_body img width height L1 L2 t1 t2 = (\<lambda>y x a. a[y * width + x := ?v y x])"
    by (intro ext) (simp add: BuildArms_body_def split: prod.splits)
  show ?thesis
    unfolding BuildArms_def body
    by (rule nested_fill(2) [OF assms(3) assms(2) assms(1)])
qed

section \<open>The walks on image coordinates\<close>

lemma walk_left_step:
  assumes "x < width" "y < height"
  shows "step_accepted (walk_left img width x y) (pixel_color img width x y) L1 L2 t1 t2 n
       = spec_step_accepted img width height L1 L2 t1 t2 (- 1) 0 x y n"
proof (cases "n < x")
  case True
  have px: "int x + (int n + 1) * (- 1) = int (x - 1 - n)"
    and pxp: "int (x - 1 - n) - (- 1) = int (x - n)"
    and py: "int y + (int n + 1) * 0 = int y" "int y - 0 = int y"
    using True by simp_all
  have w: "walk_left img width x y n = Some (pixel_color img width (x - 1 - n) y)"
  proof -
    have "int x - 1 - int n = int (x - 1 - n)" using True by simp
    then show ?thesis unfolding walk_left_def Let_def by (simp only: nat_int) simp
  qed
  have wp: "walk_left img width x y (n - 1) = Some (pixel_color img width (x - n) y)" if "n > 0"
  proof -
    have "int x - 1 - int (n - 1) = int (x - n)" using True that by simp
    then show ?thesis unfolding walk_left_def Let_def by (simp only: nat_int) simp
  qed
  show ?thesis
    unfolding step_accepted_def spec_step_accepted_def Let_def px pxp py nat_int w
    using True assms wp by (cases "n > 0") auto
next
  case False
  then have "walk_left img width x y n = None" by (simp add: walk_left_def Let_def)
  then show ?thesis using False by (simp add: step_accepted_def spec_step_accepted_def Let_def)
qed

lemma walk_up_step:
  assumes "x < width" "y < height"
  shows "step_accepted (walk_up img width x y) (pixel_color img width x y) L1 L2 t1 t2 n
       = spec_step_accepted img width height L1 L2 t1 t2 0 (- 1) x y n"
proof (cases "n < y")
  case True
  have py: "int y + (int n + 1) * (- 1) = int (y - 1 - n)"
    and pyp: "int (y - 1 - n) - (- 1) = int (y - n)"
    and px: "int x + (int n + 1) * 0 = int x" "int x - 0 = int x"
    using True by simp_all
  have w: "walk_up img width x y n = Some (pixel_color img width x (y - 1 - n))"
  proof -
    have "int y - 1 - int n = int (y - 1 - n)" using True by simp
    then show ?thesis unfolding walk_up_def Let_def by (simp only: nat_int) simp
  qed
  have wp: "walk_up img width x y (n - 1) = Some (pixel_color img width x (y - n))" if "n > 0"
  proof -
    have "int y - 1 - int (n - 1) = int (y - n)" using True that by simp
    then show ?thesis unfolding walk_up_def Let_def by (simp only: nat_int) simp
  qed
  show ?thesis
    unfolding step_accepted_def spec_step_accepted_def Let_def py pyp px nat_int w
    using True assms wp by (cases "n > 0") auto
next
  case False
  then have "walk_up img width x y n = None" by (simp add: walk_up_def Let_def)
  then show ?thesis using False by (simp add: step_accepted_def spec_step_accepted_def Let_def)
qed

lemma walk_right_step:
  assumes "x < width" "y < height" "x + n < width"
  shows "step_accepted (walk_right img width x y) (pixel_color img width x y) L1 L2 t1 t2 n
       = spec_step_accepted img width height L1 L2 t1 t2 1 0 x y n"
proof (cases "x + 1 + n = width")
  case True
  then have "walk_right img width x y n = None" by (simp add: walk_right_def Let_def)
  then show ?thesis using True by (simp add: step_accepted_def spec_step_accepted_def Let_def)
next
  case False
  then have lt: "x + 1 + n < width" using assms(3) by simp
  have px: "int x + (int n + 1) * 1 = int (x + 1 + n)"
    and pxp: "int (x + 1 + n) - 1 = int (x + n)"
    and py: "int y + (int n + 1) * 0 = int y" "int y - 0 = int y"
    by simp_all
  have w: "walk_right img width x y n = Some (pixel_color img width (x + 1 + n) y)"
    using False by (simp add: walk_right_def Let_def)
  have wp: "walk_right img width x y (n - 1) = Some (pixel_color img width (x + n) y)" if "n > 0"
    using lt that by (simp add: walk_right_def Let_def)
  show ?thesis
    unfolding step_accepted_def spec_step_accepted_def Let_def px pxp py nat_int w
    using lt assms wp by (cases "n > 0") auto
qed

lemma walk_down_step:
  assumes "x < width" "y < height" "y + n < height"
  shows "step_accepted (walk_down img width height x y) (pixel_color img width x y) L1 L2 t1 t2 n
       = spec_step_accepted img width height L1 L2 t1 t2 0 1 x y n"
proof (cases "y + 1 + n = height")
  case True
  then have "walk_down img width height x y n = None" by (simp add: walk_down_def Let_def)
  then show ?thesis using True by (simp add: step_accepted_def spec_step_accepted_def Let_def)
next
  case False
  then have lt: "y + 1 + n < height" using assms(3) by simp
  have py: "int y + (int n + 1) * 1 = int (y + 1 + n)"
    and pyp: "int (y + 1 + n) - 1 = int (y + n)"
    and px: "int x + (int n + 1) * 0 = int x" "int x - 0 = int x"
    by simp_all
  have w: "walk_down img width height x y n = Some (pixel_color img width x (y + 1 + n))"
    using False by (simp add: walk_down_def Let_def)
  have wp: "walk_down img width height x y (n - 1) = Some (pixel_color img width x (y + n))"
    if "n > 0"
    using lt that by (simp add: walk_down_def Let_def)
  show ?thesis
    unfolding step_accepted_def spec_step_accepted_def Let_def py pyp px nat_int w
    using lt assms wp by (cases "n > 0") auto
qed

lemma left_arm_spec:
  assumes "x < width" "y < height"
    and "largest_accepted_prefix (walk_left img width x y) (pixel_color img width x y)
           L1 L2 t1 t2 a"
  shows "spec_arm_length img width height L1 L2 t1 t2 (- 1) 0 x y a"
  using assms(3) unfolding largest_accepted_prefix_def spec_arm_length_def
  by (simp add: walk_left_step [OF assms(1,2)])

lemma top_arm_spec:
  assumes "x < width" "y < height"
    and "largest_accepted_prefix (walk_up img width x y) (pixel_color img width x y)
           L1 L2 t1 t2 a"
  shows "spec_arm_length img width height L1 L2 t1 t2 0 (- 1) x y a"
  using assms(3) unfolding largest_accepted_prefix_def spec_arm_length_def
  by (simp add: walk_up_step [OF assms(1,2)])

lemma right_arm_spec:
  assumes "x < width" "y < height"
    and "largest_accepted_prefix (walk_right img width x y) (pixel_color img width x y)
           L1 L2 t1 t2 a"
  shows "spec_arm_length img width height L1 L2 t1 t2 1 0 x y a"
proof -
  have a: "x + a < width" by (rule prefix_walk_right [OF assms(3,1)])
  have "step_accepted (walk_right img width x y) (pixel_color img width x y) L1 L2 t1 t2 n
      = spec_step_accepted img width height L1 L2 t1 t2 1 0 x y n" if "n \<le> a" for n
    by (rule walk_right_step [OF assms(1,2)]) (use a that in simp)
  then show ?thesis
    using assms(3) unfolding largest_accepted_prefix_def spec_arm_length_def by simp
qed

lemma bottom_arm_spec:
  assumes "x < width" "y < height"
    and "largest_accepted_prefix (walk_down img width height x y) (pixel_color img width x y)
           L1 L2 t1 t2 a"
  shows "spec_arm_length img width height L1 L2 t1 t2 0 1 x y a"
proof -
  have a: "y + a < height" by (rule prefix_walk_down [OF assms(3,2)])
  have "step_accepted (walk_down img width height x y) (pixel_color img width x y) L1 L2 t1 t2 n
      = spec_step_accepted img width height L1 L2 t1 t2 0 1 x y n" if "n \<le> a" for n
    by (rule walk_down_step [OF assms(1,2)]) (use a that in simp)
  then show ?thesis
    using assms(3) unfolding largest_accepted_prefix_def spec_arm_length_def by simp
qed

text \<open>
  Claim C8.  For every pixel \<open>(x, y)\<close> of the image, each of the four arm lengths that
  \<open>BuildArms\<close> stores is the length of the largest prefix of accepted steps in its
  direction: step \<open>n\<close> of the left arm is the pixel \<open>(x - n - 1, y)\<close>, of the right arm
  \<open>(x + n + 1, y)\<close>, of the top arm \<open>(x, y - n - 1)\<close> and of the bottom arm
  \<open>(x, y + n + 1)\<close>, and a step is accepted when its index is below
  \<open>min(cross_L1, MAX_ARM_LENGTH)\<close>, its pixel is inside the image, the colour distance
  to the centre is below \<open>cross_t1\<close>, after the first step also the distance to the
  previous pixel, and the distance to the centre is below \<open>cross_t2\<close> once
  \<open>n + 1 > cross_L2\<close>.  The arms are computed from the one image given, and
  \<open>x - left \<ge> 0\<close>, \<open>x + right < width\<close>, \<open>y - top \<ge> 0\<close>, \<open>y + bottom < height\<close>.
\<close>

theorem BuildArms_spec:
  assumes "x < width" "y < height" "height * width \<le> length arms0"
  shows "spec_arm_length img width height L1 L2 t1 t2 (- 1) 0 x y
           (unat (arm_left (BuildArms img width height L1 L2 t1 t2 arms0 ! (y * width + x))))
       \<and> spec_arm_length img width height L1 L2 t1 t2 1 0 x y
           (unat (arm_right (BuildArms img width height L1 L2 t1 t2 arms0 ! (y * width + x))))
       \<and> spec_arm_length img width height L1 L2 t1 t2 0 (- 1) x y
           (unat (arm_top (BuildArms img width height L1 L2 t1 t2 arms0 ! (y * width + x))))
       \<and> spec_arm_length img width height L1 L2 t1 t2 0 1 x y
           (unat (arm_bottom (BuildArms img width height L1 L2 t1 t2 arms0 ! (y * width + x))))
       \<and> unat (arm_left (BuildArms img width height L1 L2 t1 t2 arms0 ! (y * width + x))) \<le> x
       \<and> x + unat (arm_right (BuildArms img width height L1 L2 t1 t2 arms0 ! (y * width + x))) < width
       \<and> unat (arm_top (BuildArms img width height L1 L2 t1 t2 arms0 ! (y * width + x))) \<le> y
       \<and> y + unat (arm_bottom (BuildArms img width height L1 L2 t1 t2 arms0 ! (y * width + x))) < height"
proof -
  let ?c = "pixel_color img width x y"
  let ?arm = "BuildArms img width height L1 L2 t1 t2 arms0 ! (y * width + x)"
  have l: "largest_accepted_prefix (walk_left img width x y) ?c L1 L2 t1 t2 (unat (arm_left ?arm))"
    unfolding BuildArms_nth [OF assms] by (simp add: FindHorizontalArm_def Let_def find_arm_spec)
  have r: "largest_accepted_prefix (walk_right img width x y) ?c L1 L2 t1 t2 (unat (arm_right ?arm))"
    unfolding BuildArms_nth [OF assms] by (simp add: FindHorizontalArm_def Let_def find_arm_spec)
  have t: "largest_accepted_prefix (walk_up img width x y) ?c L1 L2 t1 t2 (unat (arm_top ?arm))"
    unfolding BuildArms_nth [OF assms] by (simp add: FindVerticalArm_def Let_def find_arm_spec)
  have b: "largest_accepted_prefix (walk_down img width height x y) ?c L1 L2 t1 t2
             (unat (arm_bottom ?arm))"
    unfolding BuildArms_nth [OF assms] by (simp add: FindVerticalArm_def Let_def find_arm_spec)
  show ?thesis
    using left_arm_spec [OF assms(1,2) l] right_arm_spec [OF assms(1,2) r]
      top_arm_spec [OF assms(1,2) t] bottom_arm_spec [OF assms(1,2) b]
      prefix_walk_left [OF l] prefix_walk_right [OF r assms(1)]
      prefix_walk_up [OF t] prefix_walk_down [OF b assms(2)]
    by blast
qed

section \<open>The arms on a concrete image\<close>

theorem BuildArms_spec_witness:
  "BuildArms img3 3 2 34 17 20 6 [arm0, arm0, arm0, arm0, arm0, arm0] ! (0 * 3 + 1)
     = \<lparr>arm_left = 1, arm_right = 1, arm_top = 0, arm_bottom = 1\<rparr>
   \<and> spec_arm_length img3 3 2 34 17 20 6 (- 1) 0 1 0 1
   \<and> spec_arm_length img3 3 2 34 17 20 6 1 0 1 0 1
   \<and> spec_arm_length img3 3 2 34 17 20 6 0 (- 1) 1 0 0
   \<and> spec_arm_length img3 3 2 34 17 20 6 0 1 1 0 1"
proof -
  have e: "BuildArms img3 3 2 34 17 20 6 [arm0, arm0, arm0, arm0, arm0, arm0] ! (0 * 3 + 1)
     = \<lparr>arm_left = 1, arm_right = 1, arm_top = 0, arm_bottom = 1\<rparr>"
    by code_simp
  have h: "(1::nat) < 3" "(0::nat) < 2" "2 * 3 \<le> length [arm0, arm0, arm0, arm0, arm0, arm0]"
    by simp_all
  from BuildArms_spec [OF h, of img3 34 17 20 6] show ?thesis
    unfolding e by simp
qed

section \<open>Support counts are region sizes\<close>

lemma arm_sum_sum_list:
  fixes f :: "int \<Rightarrow> 'a::comm_monoid_add"
  shows "arm_sum lo hi f = sum_list (map f [lo..hi])"
proof -
  have "fold (\<lambda>t acc. acc + f t) xs a = a + sum_list (map f xs)" for xs a
    by (induction xs arbitrary: a) (simp_all add: add.assoc)
  then show ?thesis by (simp add: arm_sum_def)
qed

lemma arm_sum_count: "arm_sum lo hi (\<lambda>t. 1::int) = int (length [lo..hi])"
  by (simp add: arm_sum_sum_list sum_list_triv)

lemma sup_count_pass_nth:
  assumes "height * width \<le> length dst" "y < height" "x < width"
  shows "sup_count_pass arms width height hf k tmp dst ! (y * width + x)
       = sup_count_value arms width hf k tmp y x"
  unfolding sup_count_pass_def by (rule nested_fill(2) [OF assms])

lemma sup_count_pass_length:
  assumes "height * width \<le> length dst"
  shows "length (sup_count_pass arms width height hf k tmp dst) = length dst"
  unfolding sup_count_pass_def by (rule nested_fill(1) [OF assms])

lemma inside_vertical:
  assumes "arms_inside arms width height" "y < height" "x < width"
    and "t \<in> set [- uint (arm_top (arms ! (y * width + x)))
                 .. uint (arm_bottom (arms ! (y * width + x)))]"
  shows "0 \<le> int y + t" and "nat (int y + t) < height"
    and "nat ((int y + t) * int width + int x) = nat (int y + t) * width + x"
proof -
  from assms(1-3) have "unat (arm_top (arms ! (y * width + x))) \<le> y"
    and "y + unat (arm_bottom (arms ! (y * width + x))) < height"
    by (auto simp: arms_inside_def)
  moreover from assms(4) have "- uint (arm_top (arms ! (y * width + x))) \<le> t"
    and "t \<le> uint (arm_bottom (arms ! (y * width + x)))" by simp_all
  moreover note uint_nat [of "arm_top (arms ! (y * width + x))"]
    uint_nat [of "arm_bottom (arms ! (y * width + x))"]
  ultimately show a: "0 \<le> int y + t" and "nat (int y + t) < height"
    by linarith+
  from a obtain m where m: "int y + t = int m" using nonneg_int_cases by blast
  show "nat ((int y + t) * int width + int x) = nat (int y + t) * width + x"
    unfolding m by (simp add: nat_add_distrib nat_mult_distrib)
qed

lemma inside_horizontal:
  assumes "arms_inside arms width height" "y < height" "x < width"
    and "s \<in> set [- uint (arm_left (arms ! (y * width + x)))
                 .. uint (arm_right (arms ! (y * width + x)))]"
  shows "0 \<le> int x + s" and "nat (int x + s) < width"
    and "nat (int y * int width + int x + s) = y * width + nat (int x + s)"
proof -
  from assms(1-3) have "unat (arm_left (arms ! (y * width + x))) \<le> x"
    and "x + unat (arm_right (arms ! (y * width + x))) < width"
    by (auto simp: arms_inside_def)
  moreover from assms(4) have "- uint (arm_left (arms ! (y * width + x))) \<le> s"
    and "s \<le> uint (arm_right (arms ! (y * width + x)))" by simp_all
  moreover note uint_nat [of "arm_left (arms ! (y * width + x))"]
    uint_nat [of "arm_right (arms ! (y * width + x))"]
  ultimately show a: "0 \<le> int x + s" and "nat (int x + s) < width"
    by linarith+
  from a obtain m where m: "int x + s = int m" using nonneg_int_cases by blast
  have "int y * int width + int x + s = int (y * width + m)" using m by simp
  then show "nat (int y * int width + int x + s) = y * width + nat (int x + s)"
    unfolding m by (simp only: nat_int)
qed

lemma int_sum_list_length:
  "int (length (concat xss)) = sum_list (map (\<lambda>xs. int (length xs)) xss)"
  by (induction xss) simp_all

lemma sup_count_first_pass:
  assumes "height * width \<le> length tmp" "y < height" "x < width"
  shows "sup_count_pass arms width height True 0 tmp0 tmp ! (y * width + x)
           = int (length [- uint (arm_left (arms ! (y * width + x)))
                          .. uint (arm_right (arms ! (y * width + x)))])"
    and "sup_count_pass arms width height False 0 tmp0 tmp ! (y * width + x)
           = int (length [- uint (arm_top (arms ! (y * width + x)))
                          .. uint (arm_bottom (arms ! (y * width + x)))])"
  unfolding sup_count_pass_nth [OF assms]
  by (simp_all add: sup_count_value_def arm_sum_count Let_def)

lemma sup_count_hf:
  assumes "arms_inside arms width height" "height * width \<le> length tmp"
    and "height * width \<le> length sup0" "y < height" "x < width"
  shows "sup_count_pass arms width height True 1
           (sup_count_pass arms width height True 0 tmp0 tmp) sup0 ! (y * width + x)
         = int (length (region_hf arms width x y))"
proof -
  let ?tmp = "sup_count_pass arms width height True 0 tmp0 tmp"
  let ?ts = "[- uint (arm_top (arms ! (y * width + x))) .. uint (arm_bottom (arms ! (y * width + x)))]"
  have "sup_count_pass arms width height True 1 ?tmp sup0 ! (y * width + x)
      = sum_list (map (\<lambda>t. ?tmp ! nat ((int y + t) * int width + int x)) ?ts)"
    unfolding sup_count_pass_nth [OF assms(3,4,5)]
    by (simp add: sup_count_value_def arm_sum_sum_list Let_def)
  also have "map (\<lambda>t. ?tmp ! nat ((int y + t) * int width + int x)) ?ts
      = map (\<lambda>t. int (length [- uint (arm_left (arms ! (nat (int y + t) * width + x)))
                         .. uint (arm_right (arms ! (nat (int y + t) * width + x)))])) ?ts"
  proof (rule map_cong [OF refl])
    fix t assume t: "t \<in> set ?ts"
    note iv = inside_vertical [OF assms(1,4,5) t]
    show "?tmp ! nat ((int y + t) * int width + int x)
        = int (length [- uint (arm_left (arms ! (nat (int y + t) * width + x)))
                         .. uint (arm_right (arms ! (nat (int y + t) * width + x)))])"
      unfolding iv(3) by (rule sup_count_first_pass(1) [OF assms(2) iv(2) assms(5)])
  qed
  also have "sum_list \<dots> = int (length (region_hf arms width x y))"
    by (simp add: region_hf_def int_sum_list_length comp_def)
  finally show ?thesis .
qed

lemma sup_count_vf:
  assumes "arms_inside arms width height" "height * width \<le> length tmp"
    and "height * width \<le> length sup1" "y < height" "x < width"
  shows "sup_count_pass arms width height False 1
           (sup_count_pass arms width height False 0 tmp0 tmp) sup1 ! (y * width + x)
         = int (length (region_vf arms width x y))"
proof -
  let ?tmp = "sup_count_pass arms width height False 0 tmp0 tmp"
  let ?ss = "[- uint (arm_left (arms ! (y * width + x))) .. uint (arm_right (arms ! (y * width + x)))]"
  have "sup_count_pass arms width height False 1 ?tmp sup1 ! (y * width + x)
      = sum_list (map (\<lambda>s. ?tmp ! nat (int y * int width + int x + s)) ?ss)"
    unfolding sup_count_pass_nth [OF assms(3,4,5)]
    by (simp add: sup_count_value_def arm_sum_sum_list Let_def)
  also have "map (\<lambda>s. ?tmp ! nat (int y * int width + int x + s)) ?ss
      = map (\<lambda>s. int (length [- uint (arm_top (arms ! (y * width + nat (int x + s))))
                         .. uint (arm_bottom (arms ! (y * width + nat (int x + s))))])) ?ss"
  proof (rule map_cong [OF refl])
    fix s assume s: "s \<in> set ?ss"
    note ih = inside_horizontal [OF assms(1,4,5) s]
    show "?tmp ! nat (int y * int width + int x + s)
        = int (length [- uint (arm_top (arms ! (y * width + nat (int x + s))))
                         .. uint (arm_bottom (arms ! (y * width + nat (int x + s))))])"
      unfolding ih(3) by (rule sup_count_first_pass(2) [OF assms(2,4) ih(2)])
  qed
  also have "sum_list \<dots> = int (length (region_vf arms width x y))"
    by (simp add: region_vf_def int_sum_list_length comp_def)
  finally show ?thesis .
qed

lemma ComputeSupPixelCount_regions:
  assumes "arms_inside arms width height" "height * width \<le> length tmp"
    and "height * width \<le> length sup0" "height * width \<le> length sup1"
    and "y < height" "x < width"
  shows "fst (snd (ComputeSupPixelCount arms width height (tmp, sup0, sup1))) ! (y * width + x)
           = int (length (region True arms width x y))"
    and "snd (snd (ComputeSupPixelCount arms width height (tmp, sup0, sup1))) ! (y * width + x)
           = int (length (region False arms width x y))"
proof -
  let ?tmp1 = "sup_count_pass arms width height True 0 tmp tmp"
  have len1: "height * width \<le> length ?tmp1"
    using assms(2) by (simp add: sup_count_pass_length)
  show "fst (snd (ComputeSupPixelCount arms width height (tmp, sup0, sup1))) ! (y * width + x)
           = int (length (region True arms width x y))"
    using sup_count_hf [OF assms(1,2,3,5,6), of tmp]
    by (simp add: ComputeSupPixelCount_def Let_def region_def)
  show "snd (snd (ComputeSupPixelCount arms width height (tmp, sup0, sup1))) ! (y * width + x)
           = int (length (region False arms width x y))"
    using sup_count_vf [OF assms(1) len1 assms(4,5,6), of ?tmp1]
    by (simp add: ComputeSupPixelCount_def Let_def region_def)
qed

section \<open>Aggregation sums the region\<close>

lemma nested_fold_product:
  "fold (\<lambda>y. fold (g y) xs) ys s = fold (\<lambda>p. g (fst p) (snd p)) (List.product ys xs) s"
  by (induction ys arbitrary: s) (simp_all add: fold_map comp_def)

lemma fold_update_length:
  "length (fold (\<lambda>p a. a[idx p := v p]) ps a) = length a"
  by (induction ps arbitrary: a) simp_all

lemma fold_update_other:
  "i \<notin> idx ` set ps \<Longrightarrow> fold (\<lambda>p a. a[idx p := v p]) ps a ! i = a ! i"
  by (induction ps arbitrary: a) auto

lemma fold_update_nth:
  assumes "distinct (map idx ps)" "p \<in> set ps" "idx p < length a"
  shows "fold (\<lambda>p a. a[idx p := v p]) ps a ! idx p = v p"
  using assms
proof (induction ps arbitrary: a)
  case Nil
  then show ?case by simp
next
  case (Cons q ps)
  show ?case
  proof (cases "p \<in> set ps")
    case True
    then show ?thesis using Cons by simp
  next
    case False
    then have pq: "p = q" using Cons.prems(2) by simp
    have "idx q \<notin> idx ` set ps" using Cons.prems(1) by simp
    then show ?thesis using Cons.prems(3) by (simp add: pq fold_update_other)
  qed
qed

lemma strided_index_inj:
  fixes w r d :: nat
  assumes "0 < r" "x < w" "x' < w" "y * w * r + x * r + d = y' * w * r + x' * r + d"
  shows "y = y' \<and> x = x'"
proof -
  have "(y * w + x) * r = (y' * w + x') * r" using assms(4) by (simp add: algebra_simps)
  then have e: "y * w + x = y' * w + x'" using assms(1) by simp
  have "(y * w + x) div w = y" "(y' * w + x') div w = y'" using assms(2,3) by simp_all
  then have "y = y'" using e by simp
  moreover have "(y * w + x) mod w = x" "(y' * w + x') mod w = x'" using assms(2,3) by simp_all
  then have "x = x'" using e by simp
  ultimately show ?thesis by simp
qed

lemma strided_index_less:
  fixes w h r d x y :: nat
  assumes "d < r" "y < h" "x < w"
  shows "y * w * r + x * r + d < h * w * r"
proof -
  have "y * w + x < h * w" by (rule pixel_index(1) [OF assms(2,3)])
  then have "Suc (y * w + x) * r \<le> h * w * r" by (intro mult_le_mono1) simp
  moreover have "y * w * r + x * r + d < Suc (y * w + x) * r"
    using assms(1) by (simp add: algebra_simps)
  ultimately show ?thesis by simp
qed

lemma strided_fill:
  fixes w h r d :: nat
  assumes "d < r" "h * w * r \<le> length a0" "y < h" "x < w"
  shows "fold (\<lambda>y. fold (\<lambda>x a. a[y * w * r + x * r + d := v y x]) [0..<w]) [0..<h] a0
           ! (y * w * r + x * r + d) = v y x"
proof -
  let ?idx = "\<lambda>p. fst p * w * r + snd p * r + d"
  let ?ps = "List.product [0..<h] [0..<w]"
  have r: "0 < r" using assms(1) by simp
  have "inj_on ?idx (set ?ps)"
  proof (rule inj_onI)
    fix p q assume p: "p \<in> set ?ps" and q: "q \<in> set ?ps" and e: "?idx p = ?idx q"
    from p q have "snd p < w" "snd q < w" by auto
    from strided_index_inj [OF r this e] show "p = q" by (simp add: prod_eq_iff)
  qed
  then have dist: "distinct (map ?idx ?ps)"
    by (simp add: distinct_map distinct_product)
  have mem: "(y, x) \<in> set ?ps" using assms(3,4) by simp
  have lt: "?idx (y, x) < length a0"
    using strided_index_less [OF assms(1,3,4)] assms(2) by simp
  from fold_update_nth [OF dist mem lt, of "\<lambda>p. v (fst p) (snd p)"]
  show ?thesis unfolding nested_fold_product by simp
qed

lemma copy_slice_nth:
  assumes "height * width \<le> length tmp0" "y < height" "x < width"
  shows "copy_slice cost width height r d tmp0 ! (y * width + x)
       = cost ! (y * width * r + x * r + d)"
  unfolding copy_slice_def by (rule nested_fill(2) [OF assms])

lemma copy_slice_length:
  "height * width \<le> length tmp0 \<Longrightarrow> length (copy_slice cost width height r d tmp0) = length tmp0"
  unfolding copy_slice_def by (rule nested_fill(1))

lemma aggr_pass1_nth:
  assumes "height * width \<le> length tmp1" "y < height" "x < width"
  shows "aggr_pass1 arms width height hf tmp0 tmp1 ! (y * width + x)
       = aggr_value arms width hf 0 tmp0 y x"
  unfolding aggr_pass1_def by (rule nested_fill(2) [OF assms])

lemma aggr_pass2_nth:
  assumes "d < r" "height * width * r \<le> length cost" "y < height" "x < width"
  shows "aggr_pass2 arms width height r d hf sup_count tmp1 cost ! (y * width * r + x * r + d)
       = aggr_value arms width hf 1 tmp1 y x / real_of_int (sup_count ! (y * width + x))"
  unfolding aggr_pass2_def by (rule strided_fill [OF assms])

text \<open>The sum of the slice \<open>d\<close> of a volume over a list of pixels.\<close>

lemma sum_list_concat_map:
  fixes f :: "'b \<Rightarrow> real"
  shows "sum_list (map f (concat (map g ts))) = sum_list (map (\<lambda>t. sum_list (map f (g t))) ts)"
  by (induction ts) simp_all

lemma aggr_two_pass_hf:
  assumes "arms_inside arms width height"
    and "height * width \<le> length tmp0" "height * width \<le> length tmp1"
    and "y < height" "x < width"
  shows "aggr_value arms width True 1
           (aggr_pass1 arms width height True (copy_slice cost width height r d tmp0) tmp1) y x
       = sum_list (map (\<lambda>p. cost ! (snd p * width * r + fst p * r + d)) (region_hf arms width x y))"
proof -
  let ?t0 = "copy_slice cost width height r d tmp0"
  let ?t1 = "aggr_pass1 arms width height True ?t0 tmp1"
  let ?ts = "[- uint (arm_top (arms ! (y * width + x))) .. uint (arm_bottom (arms ! (y * width + x)))]"
  let ?ss = "\<lambda>t. [- uint (arm_left (arms ! (nat (int y + t) * width + x)))
                   .. uint (arm_right (arms ! (nat (int y + t) * width + x)))]"
  have "aggr_value arms width True 1 ?t1 y x
      = sum_list (map (\<lambda>t. ?t1 ! nat ((int y + t) * int width + int x)) ?ts)"
    by (simp add: aggr_value_def arm_sum_sum_list Let_def)
  also have "map (\<lambda>t. ?t1 ! nat ((int y + t) * int width + int x)) ?ts
      = map (\<lambda>t. sum_list (map (\<lambda>p. cost ! (snd p * width * r + fst p * r + d))
                   (map (\<lambda>s. (nat (int x + s), nat (int y + t))) (?ss t)))) ?ts"
  proof (rule map_cong [OF refl])
    fix t assume t: "t \<in> set ?ts"
    note iv = inside_vertical [OF assms(1,4,5) t]
    have "?t1 ! nat ((int y + t) * int width + int x)
        = aggr_value arms width True 0 ?t0 (nat (int y + t)) x"
      unfolding iv(3) by (rule aggr_pass1_nth [OF assms(3) iv(2) assms(5)])
    also have "\<dots> = sum_list (map (\<lambda>s. ?t0 ! nat (int (nat (int y + t)) * int width + int x + s)) (?ss t))"
      by (simp add: aggr_value_def arm_sum_sum_list Let_def)
    also have "map (\<lambda>s. ?t0 ! nat (int (nat (int y + t)) * int width + int x + s)) (?ss t)
        = map (\<lambda>s. cost ! (nat (int y + t) * width * r + nat (int x + s) * r + d)) (?ss t)"
    proof (rule map_cong [OF refl])
      fix s assume s: "s \<in> set (?ss t)"
      note ih = inside_horizontal [OF assms(1) iv(2) assms(5) s]
      show "?t0 ! nat (int (nat (int y + t)) * int width + int x + s)
          = cost ! (nat (int y + t) * width * r + nat (int x + s) * r + d)"
        unfolding ih(3) by (rule copy_slice_nth [OF assms(2) iv(2) ih(2)])
    qed
    finally show "?t1 ! nat ((int y + t) * int width + int x)
        = sum_list (map (\<lambda>p. cost ! (snd p * width * r + fst p * r + d))
                   (map (\<lambda>s. (nat (int x + s), nat (int y + t))) (?ss t)))"
      by (simp add: comp_def)
  qed
  also have "sum_list \<dots>
      = sum_list (map (\<lambda>p. cost ! (snd p * width * r + fst p * r + d)) (region_hf arms width x y))"
    unfolding region_hf_def sum_list_concat_map ..
  finally show ?thesis .
qed

lemma aggr_two_pass_vf:
  assumes "arms_inside arms width height"
    and "height * width \<le> length tmp0" "height * width \<le> length tmp1"
    and "y < height" "x < width"
  shows "aggr_value arms width False 1
           (aggr_pass1 arms width height False (copy_slice cost width height r d tmp0) tmp1) y x
       = sum_list (map (\<lambda>p. cost ! (snd p * width * r + fst p * r + d)) (region_vf arms width x y))"
proof -
  let ?t0 = "copy_slice cost width height r d tmp0"
  let ?t1 = "aggr_pass1 arms width height False ?t0 tmp1"
  let ?ss = "[- uint (arm_left (arms ! (y * width + x))) .. uint (arm_right (arms ! (y * width + x)))]"
  let ?ts = "\<lambda>s. [- uint (arm_top (arms ! (y * width + nat (int x + s))))
                   .. uint (arm_bottom (arms ! (y * width + nat (int x + s))))]"
  have "aggr_value arms width False 1 ?t1 y x
      = sum_list (map (\<lambda>s. ?t1 ! nat (int y * int width + int x + s)) ?ss)"
    by (simp add: aggr_value_def arm_sum_sum_list Let_def)
  also have "map (\<lambda>s. ?t1 ! nat (int y * int width + int x + s)) ?ss
      = map (\<lambda>s. sum_list (map (\<lambda>p. cost ! (snd p * width * r + fst p * r + d))
                   (map (\<lambda>t. (nat (int x + s), nat (int y + t))) (?ts s)))) ?ss"
  proof (rule map_cong [OF refl])
    fix s assume s: "s \<in> set ?ss"
    note ih = inside_horizontal [OF assms(1,4,5) s]
    have "?t1 ! nat (int y * int width + int x + s)
        = aggr_value arms width False 0 ?t0 y (nat (int x + s))"
      unfolding ih(3) by (rule aggr_pass1_nth [OF assms(3,4) ih(2)])
    also have "\<dots> = sum_list (map (\<lambda>t. ?t0 ! nat ((int y + t) * int width + int (nat (int x + s)))) (?ts s))"
      by (simp add: aggr_value_def arm_sum_sum_list Let_def)
    also have "map (\<lambda>t. ?t0 ! nat ((int y + t) * int width + int (nat (int x + s)))) (?ts s)
        = map (\<lambda>t. cost ! (nat (int y + t) * width * r + nat (int x + s) * r + d)) (?ts s)"
    proof (rule map_cong [OF refl])
      fix t assume t: "t \<in> set (?ts s)"
      note iv = inside_vertical [OF assms(1,4) ih(2) t]
      show "?t0 ! nat ((int y + t) * int width + int (nat (int x + s)))
          = cost ! (nat (int y + t) * width * r + nat (int x + s) * r + d)"
        unfolding iv(3) by (rule copy_slice_nth [OF assms(2) iv(2) ih(2)])
    qed
    finally show "?t1 ! nat (int y * int width + int x + s)
        = sum_list (map (\<lambda>p. cost ! (snd p * width * r + fst p * r + d))
                   (map (\<lambda>t. (nat (int x + s), nat (int y + t))) (?ts s)))"
      by (simp add: comp_def)
  qed
  also have "sum_list \<dots>
      = sum_list (map (\<lambda>p. cost ! (snd p * width * r + fst p * r + d)) (region_vf arms width x y))"
    unfolding region_vf_def sum_list_concat_map ..
  finally show ?thesis .
qed

lemma AggregateInArms_nth:
  assumes "arms_inside arms width height"
    and "min_d \<le> disparity" "disparity < max_d"
    and "height * width * nat (max_d - min_d) \<le> length cost"
    and "height * width \<le> length tmp0" "height * width \<le> length tmp1"
    and "y < height" "x < width"
  shows "fst (AggregateInArms arms width height min_d max_d sup_count disparity hf (cost, tmp0, tmp1))
           ! (y * width * nat (max_d - min_d) + x * nat (max_d - min_d) + nat (disparity - min_d))
       = sum_list (map (\<lambda>p. cost ! (snd p * width * nat (max_d - min_d)
                                   + fst p * nat (max_d - min_d) + nat (disparity - min_d)))
                    (region hf arms width x y))
         / real_of_int (sup_count ! (y * width + x))"
proof -
  let ?r = "nat (max_d - min_d)" and ?d = "nat (disparity - min_d)"
  have d: "?d < ?r" using assms(2,3) by simp
  have e: "fst (AggregateInArms arms width height min_d max_d sup_count disparity hf (cost, tmp0, tmp1))
      = aggr_pass2 arms width height ?r ?d hf sup_count
          (aggr_pass1 arms width height hf (copy_slice cost width height ?r ?d tmp0) tmp1) cost"
    using assms(2,3) by (simp add: AggregateInArms_def Let_def)
  have v: "aggr_value arms width hf 1
             (aggr_pass1 arms width height hf (copy_slice cost width height ?r ?d tmp0) tmp1) y x
         = sum_list (map (\<lambda>p. cost ! (snd p * width * ?r + fst p * ?r + ?d))
                      (region hf arms width x y))"
    using aggr_two_pass_hf [OF assms(1,5,6,7,8), of cost ?r ?d]
      aggr_two_pass_vf [OF assms(1,5,6,7,8), of cost ?r ?d]
    by (cases hf) (simp_all add: region_def)
  show ?thesis
    unfolding e aggr_pass2_nth [OF d assms(4,7,8)] v ..
qed

text \<open>
  Claim C9.  With arms that stay inside the image, for every pixel and both pass
  orientations the support count computed by \<open>ComputeSupPixelCount\<close> is the number of
  pixels of the two-pass cross region (the number of cost terms that the two passes of
  \<open>AggregateInArms\<close> add up for the pixel), and the value that \<open>AggregateInArms\<close>
  writes back is the sum of the slice over that region divided by this number: the
  arithmetic mean over the region.
\<close>

theorem support_count_is_region_size:
  assumes "arms_inside arms width height"
    and "height * width \<le> length count_tmp"
    and "height * width \<le> length sup0" "height * width \<le> length sup1"
    and "min_d \<le> disparity" "disparity < max_d"
    and "height * width * nat (max_d - min_d) \<le> length cost"
    and "height * width \<le> length tmp0" "height * width \<le> length tmp1"
    and "y < height" "x < width"
    and "sup_count = (if hf then fst (snd (ComputeSupPixelCount arms width height (count_tmp, sup0, sup1)))
                      else snd (snd (ComputeSupPixelCount arms width height (count_tmp, sup0, sup1))))"
  shows "sup_count ! (y * width + x) = int (length (region hf arms width x y))
       \<and> fst (AggregateInArms arms width height min_d max_d sup_count disparity hf (cost, tmp0, tmp1))
           ! (y * width * nat (max_d - min_d) + x * nat (max_d - min_d) + nat (disparity - min_d))
         = sum_list (map (\<lambda>p. cost ! (snd p * width * nat (max_d - min_d)
                                     + fst p * nat (max_d - min_d) + nat (disparity - min_d)))
                      (region hf arms width x y))
           / real (length (region hf arms width x y))"
proof -
  have c: "sup_count ! (y * width + x) = int (length (region hf arms width x y))"
    unfolding assms(12)
    using ComputeSupPixelCount_regions [OF assms(1,2,3,4,10,11)]
    by (cases hf) simp_all
  show ?thesis
    using c AggregateInArms_nth [OF assms(1,5,6,7,8,9,10,11), of sup_count hf]
    by simp
qed

section \<open>Support counts on a concrete image\<close>

lemma arms2_inside: "arms_inside arms2 2 1"
  unfolding arms_inside_def
proof (intro allI impI)
  fix y x :: nat assume "y < 1" "x < 2"
  then have "y = 0" "x = 0 \<or> x = 1" by auto
  then show "unat (arm_left (arms2 ! (y * 2 + x))) \<le> x \<and>
        x + unat (arm_right (arms2 ! (y * 2 + x))) < 2 \<and>
        unat (arm_top (arms2 ! (y * 2 + x))) \<le> y \<and>
        y + unat (arm_bottom (arms2 ! (y * 2 + x))) < 1"
    by (auto simp: arms2_def)
qed

theorem support_count_is_region_size_witness:
  "fst (snd (ComputeSupPixelCount arms2 2 1 ([0, 0], [0, 0], [0, 0]))) ! (0 * 2 + 0) = 2
   \<and> fst (AggregateInArms arms2 2 1 0 1
            (fst (snd (ComputeSupPixelCount arms2 2 1 ([0, 0], [0, 0], [0, 0])))) 0 True
            ([2, 4], [0, 0], [0, 0])) ! (0 * 2 * nat (1 - 0) + 0 * nat (1 - 0) + nat (0 - 0)) = 3"
proof -
  let ?sc = "fst (snd (ComputeSupPixelCount arms2 2 1 ([0, 0], [0, 0], [0, 0])))"
  have sc: "?sc = (if True then fst (snd (ComputeSupPixelCount arms2 2 1 ([0, 0], [0, 0], [0, 0])))
                   else snd (snd (ComputeSupPixelCount arms2 2 1 ([0, 0], [0, 0], [0, 0]))))"
    by simp
  have len: "length (region True arms2 2 0 0) = 2" by code_simp
  have sm: "sum_list (map (\<lambda>p. [2, 4 :: real] ! (snd p * 2 * nat (1 - 0) + fst p * nat (1 - 0) + nat (0 - 0)))
              (region True arms2 2 0 0)) = 6"
    by code_simp
  from support_count_is_region_size [OF arms2_inside, of "[0, 0]" "[0, 0]" "[0, 0]" 0 0 1
      "[2, 4]" "[0, 0]" "[0, 0]" 0 0 ?sc True, OF _ _ _ _ _ _ _ _ _ _ sc]
  show ?thesis unfolding len sm by simp
qed

section \<open>The left-right consistency check\<close>

lemma fold_row_major:
  "fold f (row_major width height) s = fold (\<lambda>y. fold (\<lambda>x. f (x, y)) [0..<width]) [0..<height] s"
proof -
  have "fold f (concat (map (\<lambda>y. map (\<lambda>x. (x, y)) xs) ys)) s
      = fold (\<lambda>y. fold (\<lambda>x. f (x, y)) xs) ys s" for xs ys :: "nat list"
    by (induction ys arbitrary: s) (simp_all add: fold_map comp_def)
  then show ?thesis by (simp add: row_major_def)
qed

text \<open>
  The loop body is the classification of the specification with the truncated
  difference in the place of the absolute value.
\<close>

lemma OutlierDetection_body_truncated:
  "OutlierDetection_body K width threshold DR y x s
     = lr_step_with (\<lambda>v. real_of_int (abs_int v)) K width threshold DR (x, y) s"
proof -
  obtain DL occ mis where s: "s = (DL, occ, mis)" using prod_cases3 by blast
  have id: "DL ! (y * width + x) = Invalid_Float K
              \<Longrightarrow> DL[y * width + x := Invalid_Float K] = DL"
    by (metis list_update_id)
  show ?thesis
    unfolding s
    by (auto simp: OutlierDetection_body_def lr_step_with_def lr_verdict_with_def Let_def id
        not_le not_less)
qed

lemma OutlierDetection_truncated:
  "OutlierDetection K width height threshold DR (DL, occlusions0, mismatches0)
     = fold (lr_step_with (\<lambda>v. real_of_int (abs_int v)) K width threshold DR)
         (row_major width height) (DL, [], [])"
  by (simp add: OutlierDetection_def fold_row_major OutlierDetection_body_truncated [abs_def])

text \<open>
  Claim C5 at a failing input: the row \<open>DL = [Invalid_Float, 0, 5]\<close>, \<open>DR = [0, 1.2, 0]\<close>
  of a 3 x 1 image with \<open>lrcheck_thres = 1\<close>.  The pixel \<open>x = 1\<close> has \<open>d = 0\<close>, \<open>xr = 1\<close>
  and \<open>d - DR[xr] = -1.2\<close>.  The source evaluates \<open>abs(disp - disp_r)\<close> on the \<open>int\<close>
  \<open>-1\<close>, finds that 1 does not exceed the threshold and keeps the pixel.  The
  classification of the claim has \<open>|d - DR[xr]| = 1.2 > 1\<close>, computes \<open>xrl = 2\<close>, finds
  \<open>DL[2] = 5 > 0\<close> and makes the pixel an occlusion with an invalid disparity.  The
  two other pixels are mismatches on both sides.
\<close>

theorem OutlierDetection_truncates_difference:
  "OutlierDetection K0 3 1 1 [0, 12 / 10, 0] ([Invalid_Float K0, 0, 5], [(7, 7)], [(8, 8)])
     = ([Invalid_Float K0, 0, Invalid_Float K0], [], [(0, 0), (2, 0)])
   \<and> fold (spec_lr_step K0 3 1 [0, 12 / 10, 0]) (row_major 3 1) ([Invalid_Float K0, 0, 5], [], [])
     = ([Invalid_Float K0, Invalid_Float K0, Invalid_Float K0], [(1, 0)], [(0, 0), (2, 0)])"
  by code_simp

section \<open>Interpolation of pixels without candidates\<close>

lemma ray_loop_all_invalid:
  assumes "\<forall>i<height * width. disp_left ! i = Invalid_Float K"
  shows "ray_loop K disp_left width height sina cosa x y remaining m = None"
proof (induction remaining arbitrary: m)
  case 0
  show ?case by simp
next
  case (Suc remaining)
  let ?yy = "lround (real y + real_of_int m * sina)"
  let ?xx = "lround (real x + real_of_int m * cosa)"
  show ?case
  proof (cases "?yy < 0 \<or> ?yy \<ge> int height \<or> ?xx < 0 \<or> ?xx \<ge> int width")
    case True
    then show ?thesis by (simp add: Let_def)
  next
    case False
    then have "nat ?yy < height" "nat ?xx < width" by auto
    then have "nat ?yy * width + nat ?xx < height * width" by (rule pixel_index(1))
    then have "disp_left ! (nat ?yy * width + nat ?xx) = Invalid_Float K" using assms by blast
    then show ?thesis using False Suc.IH by (simp add: Let_def)
  qed
qed

lemma fold_no_candidates:
  assumes "\<And>s. f s = None"
  shows "fold (\<lambda>s disp_collects. case f s of None \<Rightarrow> disp_collects
                                           | Some dc \<Rightarrow> disp_collects @ [dc]) xs acc = acc"
  by (induction xs arbitrary: acc) (simp_all add: assms)

lemma collect_rays_all_invalid:
  assumes "\<forall>i<height * width. disp_left ! i = Invalid_Float K"
  shows "collect_rays K disp_left width height L sina cosa x y = []"
  unfolding collect_rays_def
  by (rule fold_no_candidates) (rule ray_loop_all_invalid [OF assms])

lemma compute_fills_all_invalid:
  assumes "\<forall>i<height * width. disp_left ! i = Invalid_Float K"
  shows "compute_fills K img disp_left width height L sina cosa k trg_pixels
       = replicate (length trg_pixels) 0"
proof -
  have "fold (\<lambda>n fill_disps. fill_disps) ns a = a" for ns :: "nat list" and a :: "real list"
    by (induction ns) simp_all
  then show ?thesis
    by (simp add: compute_fills_def collect_rays_all_invalid [OF assms] Let_def)
qed

lemma write_zero_fills:
  assumes "\<forall>n\<in>set ns. n < N" "i < length a"
  shows "fold (\<lambda>n a. a[f n := replicate N (0::real) ! n]) ns a ! i
       = (if i \<in> f ` set ns then 0 else a ! i)"
  using assms
proof (induction ns arbitrary: a)
  case Nil
  show ?case by simp
next
  case (Cons n ns)
  have "fold (\<lambda>n a. a[f n := replicate N (0::real) ! n]) ns (a[f n := replicate N 0 ! n]) ! i
      = (if i \<in> f ` set ns then 0 else (a[f n := replicate N 0 ! n]) ! i)"
    by (rule Cons.IH) (use Cons.prems in auto)
  then show ?case using Cons.prems by (auto simp: nth_list_update)
qed

lemma interpolate_all_invalid:
  assumes "\<forall>i<height * width. disp_left ! i = Invalid_Float K"
    and "(x, y) \<in> set trg_pixels" "y * width + x < length disp_left"
  shows "interpolate_list K img width height L sina cosa k trg_pixels disp_left ! (y * width + x) = 0"
proof -
  let ?f = "\<lambda>n. snd (trg_pixels ! n) * width + fst (trg_pixels ! n)"
  from assms(2) obtain n where n: "n < length trg_pixels" "trg_pixels ! n = (x, y)"
    by (auto simp: in_set_conv_nth)
  then have mem: "y * width + x \<in> ?f ` set [0..<length trg_pixels]" by force
  have ne: "trg_pixels \<noteq> []" using assms(2) by auto
  show ?thesis
    using write_zero_fills [of "[0..<length trg_pixels]" "length trg_pixels" "y * width + x"
        disp_left ?f] mem assms(3) ne
    by (simp add: interpolate_list_def compute_fills_all_invalid [OF assms(1)] write_fills_def)
qed

text \<open>
  Claim C2 on a map without a valid disparity (the map of a disparity range of one or
  two values, for instance).  No ray of a listed pixel yields a candidate; \<open>continue\<close>
  leaves the pixel's entry of \<open>fill_disps\<close> at its initial 0.0 and the second loop
  stores it.  The pixel's entry of DL is 0.0 afterwards: it is not left unchanged.
\<close>

theorem ProperInterpolation_writes_zero:
  assumes "\<forall>i<height * width. disp_left ! i = Invalid_Float K"
    and "length disp_left = height * width"
    and "(x, y) \<in> set mismatches" "x < width" "y < height"
  shows "fst (ProperInterpolation K img width height min_d max_d sina cosa
                (disp_left, [], mismatches)) ! (y * width + x) = 0"
proof -
  have "y * width + x < length disp_left"
    unfolding assms(2) by (rule pixel_index(1) [OF assms(5,4)])
  from interpolate_all_invalid [OF assms(1,3) this]
  show ?thesis by (simp add: ProperInterpolation_def Let_def interpolate_list_def)
qed

theorem ProperInterpolation_writes_zero_witness:
  "ProperInterpolation K0 [7, 7, 7] 1 1 0 64 (\<lambda>s. 0) (\<lambda>s. 1) ([Invalid_Float K0], [], [(0, 0)])
     = ([0], [], [(0, 0)])
   \<and> Invalid_Float K0 \<noteq> 0"
proof -
  let ?r = "ProperInterpolation K0 [7, 7, 7] 1 1 0 64 (\<lambda>s. 0) (\<lambda>s. 1)
              ([Invalid_Float K0], [], [(0, 0)])"
  have h: "\<forall>i<1 * 1. [Invalid_Float K0] ! i = Invalid_Float K0" by simp
  have "fst ?r ! (0 * 1 + 0) = 0"
    by (rule ProperInterpolation_writes_zero [OF h]) simp_all
  moreover have "length (fst ?r) = 1"
    by (simp add: ProperInterpolation_def Let_def interpolate_list_def write_fills_def)
  moreover have "snd ?r = ([], [(0, 0)])"
    by (simp add: ProperInterpolation_def Let_def)
  ultimately have "?r = ([0], [], [(0, 0)])"
    by (cases ?r) (auto simp: length_Suc_conv)
  then show ?thesis by (simp add: K0_def)
qed

section \<open>The output of Match for a disparity range that excludes 0\<close>

lemma fold_fixed_point: "f s = s \<Longrightarrow> fold (\<lambda>it. f) xs s = s"
  by (induction xs) simp_all

lemma vote_iteration_single_invalid:
  "vote_iteration K0 [arm0] 1 1 2 ts th ([Invalid_Float K0], [], [(0, 0)])
     = ([Invalid_Float K0], [], [(0, 0)])"
  by code_simp

lemma OutlierDetection_single_invalid:
  "OutlierDetection K0 1 1 threshold disp_right ([Invalid_Float K0], occlusions, mismatches)
     = ([Invalid_Float K0], [], [(0, 0)])"
  by (simp add: OutlierDetection_def OutlierDetection_body_def)

text \<open>
  Claim C1 at a failing input: \<open>min_disparity = 1\<close>, \<open>max_disparity = 2\<close>, the shipped
  switches (left-right check and filling on, no discontinuity adjustment), a 1 x 1
  image.  The only cost of the pixel is its arg-min, at the end of the range, so
  \<open>ComputeDisparity\<close> stores \<open>Invalid_Float\<close>; the refinement lists the pixel as a
  mismatch, the voting has no vote and the interpolation no candidate, and the map
  handed to the median filter is 0.0, outside \<open>(min_disparity - 0.5, max_disparity - 0.5)\<close>.
\<close>

theorem Match_disparity_outside_range:
  "ComputeDisparity K0 [1 / 2] 1 1 1 2 [0] = Some [Invalid_Float K0]
   \<and> MultiStepRefine K0 median img cost [arm0] disp_right 1 1
        (default_option\<lparr>min_disparity := 1, max_disparity := 2\<rparr>) sina cosa
        ([Invalid_Float K0], occlusions, mismatches)
      = Some (median [0] 1 1, [], [(0, 0)])
   \<and> \<not> (real_of_int 1 - 1 / 2 < (0::real))"
proof -
  have cd: "ComputeDisparity K0 [1 / 2] 1 1 1 2 [0] = Some [Invalid_Float K0]"
    by code_simp
  have irv: "IterativeRegionVoting K0 [arm0] 1 1 2 ts th ([Invalid_Float K0], [], [(0, 0)])
      = ([Invalid_Float K0], [], [(0, 0)])" for ts th
  proof -
    have fp: "fold (\<lambda>it. vote_iteration K0 [arm0] 1 1 2 ts th) [0..<5]
            ([Invalid_Float K0], [], [(0, 0)]) = ([Invalid_Float K0], [], [(0, 0)])"
      by (rule fold_fixed_point) (rule vote_iteration_single_invalid)
    have ne: "\<not> (2::int) - 1 \<le> 0" by simp
    show ?thesis unfolding IterativeRegionVoting_def by (simp only: ne if_False fp)
  qed
  have h: "\<forall>i<1 * 1. [Invalid_Float K0] ! i = Invalid_Float K0" by simp
  have pi: "ProperInterpolation K0 img 1 1 1 2 sina cosa ([Invalid_Float K0], [], [(0, 0)])
      = ([0], [], [(0, 0)])"
    using interpolate_all_invalid [OF h, of 0 0 "[(0, 0)]" img "max \<bar>2\<bar> \<bar>1\<bar>" sina cosa 0]
    by (simp add: ProperInterpolation_def Let_def interpolate_list_def write_fills_def
        compute_fills_all_invalid [OF h])
  have od: "OutlierDetection K0 1 1 1 disp_right ([Invalid_Float K0], occlusions, mismatches)
      = ([Invalid_Float K0], [], [(0, 0)])"
    by (rule OutlierDetection_single_invalid)
  have ms: "MultiStepRefine K0 median img cost [arm0] disp_right 1 1
        (default_option\<lparr>min_disparity := 1, max_disparity := 2\<rparr>) sina cosa
        ([Invalid_Float K0], occlusions, mismatches)
      = Some (median (fst (ProperInterpolation K0 img 1 1 1 2 sina cosa
                 (IterativeRegionVoting K0 [arm0] 1 1 2 20 (4 / 10)
                    (OutlierDetection K0 1 1 1 disp_right
                       ([Invalid_Float K0], occlusions, mismatches))))) 1 1,
              snd (ProperInterpolation K0 img 1 1 1 2 sina cosa
                 (IterativeRegionVoting K0 [arm0] 1 1 2 20 (4 / 10)
                    (OutlierDetection K0 1 1 1 disp_right
                       ([Invalid_Float K0], occlusions, mismatches)))))"
    by (simp add: MultiStepRefine_def default_option_def Let_def)
  show ?thesis
    unfolding ms od irv pi using cd by simp
qed

section \<open>The scanline recurrence at a disparity whose right-image pixel is outside\<close>

text \<open>
  Claim C7 at a failing input: the left-to-right sweep on the 3 x 1 pair with
  \<open>min_disparity = 0\<close>, \<open>max_disparity = 2\<close>, \<open>so_p1 = 1\<close>, \<open>so_p2 = 3\<close>, \<open>so_tso = 15\<close>
  and the source costs \<open>[0, 10, 4, 6, 1, 1]\<close>.  At the pixel \<open>x = 1\<close> the disparity 0
  has \<open>xr = 1\<close>, inside, and sets \<open>d2 = 100\<close>; the disparity 1 has \<open>xr = 0\<close>, outside,
  and the source keeps \<open>d2 = 100\<close> where the claim takes \<open>d2 = d1 = 0\<close>: the source
  uses the penalties \<open>p1 / 4\<close>, \<open>p2 / 4\<close> and stores 25/8; the claimed recurrence uses
  \<open>p1\<close>, \<open>p2\<close> and gives 7/2.
\<close>

theorem ScanlineOptimize_stale_d2:
  "ScanlineOptimizeLeftRight K0 so_left so_right 3 1 0 2 1 3 15 [0, 10, 4, 6, 1, 1]
       [9, 9, 9, 9, 9, 9] True ! (0 * 3 * 2 + 1 * 2 + 1) = 25 / 8
   \<and> claimed_so_cost K0 so_left so_right 3 0 1 3 15 1 [0, 10] 6 1 0 1 = 7 / 2"
  by code_simp

section \<open>Region voting\<close>

lemma region_hf_inside:
  assumes "arms_inside arms width height" "y < height" "x < width"
    and "p \<in> set (region_hf arms width x y)"
  shows "fst p < width \<and> snd p < height"
proof -
  from assms(4) obtain t s where
    t: "t \<in> set [- uint (arm_top (arms ! (y * width + x))) .. uint (arm_bottom (arms ! (y * width + x)))]"
    and s: "s \<in> set [- uint (arm_left (arms ! (nat (int y + t) * width + x)))
                   .. uint (arm_right (arms ! (nat (int y + t) * width + x)))]"
    and p: "p = (nat (int x + s), nat (int y + t))"
    unfolding region_hf_def by auto
  note iv = inside_vertical [OF assms(1,2,3) t]
  note ih = inside_horizontal [OF assms(1) iv(2) assms(3) s]
  show ?thesis using p iv(2) ih(2) by simp
qed

lemma fold_concat_map:
  "fold f (concat (map g ts)) s = fold (\<lambda>t. fold f (g t)) ts s"
  by (induction ts arbitrary: s) simp_all

lemma fold_filter_map:
  "fold (\<lambda>p h. if P p then bump (g p) h else h) ps h = fold bump (map g (filter P ps)) h"
  by (induction ps arbitrary: h) simp_all

lemma vote_histogram_region:
  assumes "arms_inside arms width height" "y < height" "x < width"
  shows "vote_histogram K arms width min_d DL x y h0
       = fold (\<lambda>v h. h[nat (v - min_d) := h ! nat (v - min_d) + 1]) (spec_votes K arms width DL x y) h0"
proof -
  let ?bump = "\<lambda>v h. h[nat (v - min_d) := h ! nat (v - min_d) + 1]"
  let ?step = "\<lambda>p h. if DL ! (snd p * width + fst p) \<noteq> Invalid_Float K
                      then ?bump (lround (DL ! (snd p * width + fst p))) h else h"
  let ?ts = "[- uint (arm_top (arms ! (y * width + x))) .. uint (arm_bottom (arms ! (y * width + x)))]"
  let ?ss = "\<lambda>t. [- uint (arm_left (arms ! (nat (int y + t) * width + x)))
                   .. uint (arm_right (arms ! (nat (int y + t) * width + x)))]"
  have inner: "fold (\<lambda>s histogram.
                 if DL ! nat ((int y + t) * int width + int x + s) \<noteq> Invalid_Float K
                 then histogram[nat (lround (DL ! nat ((int y + t) * int width + int x + s)) - min_d)
                        := histogram ! nat (lround (DL ! nat ((int y + t) * int width + int x + s)) - min_d) + 1]
                 else histogram)
               [- uint (arm_left (arms ! nat ((int y + t) * int width + int x)))
                .. uint (arm_right (arms ! nat ((int y + t) * int width + int x)))]
             = fold ?step (map (\<lambda>s. (nat (int x + s), nat (int y + t))) (?ss t))"
    if t: "t \<in> set ?ts" for t
  proof -
    note iv = inside_vertical [OF assms(1,2,3) t]
    have yt: "int (nat (int y + t)) = int y + t" using iv(1) by simp
    show ?thesis
      unfolding iv(3) fold_map comp_def
    proof (intro ext, rule fold_cong [OF refl refl])
      fix s assume s: "s \<in> set (?ss t)"
      note ih = inside_horizontal [OF assms(1) iv(2) assms(3) s]
      have "nat ((int y + t) * int width + int x + s) = nat (int y + t) * width + nat (int x + s)"
        using ih(3) unfolding yt .
      then show "(\<lambda>histogram.
                 if DL ! nat ((int y + t) * int width + int x + s) \<noteq> Invalid_Float K
                 then histogram[nat (lround (DL ! nat ((int y + t) * int width + int x + s)) - min_d)
                        := histogram ! nat (lround (DL ! nat ((int y + t) * int width + int x + s)) - min_d) + 1]
                 else histogram)
             = ?step (nat (int x + s), nat (int y + t))"
        by (intro ext) simp
    qed
  qed
  have "vote_histogram K arms width min_d DL x y h0
      = fold (\<lambda>t. fold ?step (map (\<lambda>s. (nat (int x + s), nat (int y + t))) (?ss t))) ?ts h0"
    unfolding vote_histogram_def Let_def
    by (rule fold_cong [OF refl refl]) (rule inner)
  also have "\<dots> = fold ?step (region_hf arms width x y) h0"
    unfolding region_hf_def fold_concat_map ..
  also have "\<dots> = fold ?bump (spec_votes K arms width DL x y) h0"
    unfolding spec_votes_def by (rule fold_filter_map)
  finally show ?thesis .
qed

lemma bump_fold_nth:
  assumes "\<forall>v\<in>set vs. min_d \<le> v \<and> v < min_d + int (length h0)" "b < length h0"
  shows "length (fold (\<lambda>v h. h[nat (v - min_d) := h ! nat (v - min_d) + 1]) vs h0) = length h0
       \<and> fold (\<lambda>v h. h[nat (v - min_d) := h ! nat (v - min_d) + 1]) vs h0 ! b
           = h0 ! b + int (count_list vs (int b + min_d))"
  using assms
proof (induction vs arbitrary: h0)
  case Nil
  show ?case by simp
next
  case (Cons v vs)
  let ?h1 = "h0[nat (v - min_d) := h0 ! nat (v - min_d) + 1]"
  have len: "length ?h1 = length h0" by simp
  have v: "min_d \<le> v" "v < min_d + int (length h0)" using Cons.prems(1) by simp_all
  then have vi: "nat (v - min_d) < length h0" by linarith
  have IH: "length (fold (\<lambda>v h. h[nat (v - min_d) := h ! nat (v - min_d) + 1]) vs ?h1) = length ?h1
       \<and> fold (\<lambda>v h. h[nat (v - min_d) := h ! nat (v - min_d) + 1]) vs ?h1 ! b
           = ?h1 ! b + int (count_list vs (int b + min_d))"
    by (rule Cons.IH) (use Cons.prems len in auto)
  have "(nat (v - min_d) = b) \<longleftrightarrow> (v = int b + min_d)" using v(1) by linarith
  then have "?h1 ! b = h0 ! b + (if v = int b + min_d then 1 else 0)"
    using Cons.prems(2) vi by (auto simp: nth_list_update)
  then show ?case using IH by simp
qed

lemma bump_fold_length:
  "length (fold (\<lambda>v h. h[nat (v - min_d) := h ! nat (v - min_d) + 1]) vs h0) = length h0"
  by (induction vs arbitrary: h0) simp_all

lemma vote_histogram_spec:
  assumes "arms_inside arms width height" "y < height" "x < width"
    and "\<forall>v\<in>set (spec_votes K arms width DL x y). min_d \<le> v \<and> v < min_d + int n"
  shows "vote_histogram K arms width min_d DL x y (replicate n 0)
       = spec_histogram (spec_votes K arms width DL x y) min_d n"
proof (rule nth_equalityI)
  let ?vs = "spec_votes K arms width DL x y"
  have a: "\<forall>v\<in>set ?vs. min_d \<le> v \<and> v < min_d + int (length (replicate n (0::int)))"
    using assms(4) by simp
  show len: "length (vote_histogram K arms width min_d DL x y (replicate n 0))
      = length (spec_histogram ?vs min_d n)"
    by (simp add: vote_histogram_region [OF assms(1,2,3)] spec_histogram_def bump_fold_length)
  fix b assume "b < length (vote_histogram K arms width min_d DL x y (replicate n 0))"
  then have b: "b < length (replicate n (0::int))"
    unfolding len by (simp add: spec_histogram_def)
  from bump_fold_nth [OF a b] b
  show "vote_histogram K arms width min_d DL x y (replicate n 0) ! b
      = spec_histogram ?vs min_d n ! b"
    by (simp add: vote_histogram_region [OF assms(1,2,3)] spec_histogram_def)
qed

lemma spec_max_h_snoc: "spec_max_h (xs @ [v]) = max v (spec_max_h xs)"
  by (simp add: spec_max_h_def)

lemma spec_max_h_ge: "x \<in> set xs \<Longrightarrow> x \<le> spec_max_h xs"
proof (induction xs rule: rev_induct)
  case Nil
  then show ?case by simp
next
  case (snoc v xs)
  then show ?case by (auto simp: spec_max_h_snoc)
qed

lemma spec_max_h_nonneg: "0 \<le> spec_max_h xs"
  by (induction xs rule: rev_induct) (simp_all add: spec_max_h_snoc spec_max_h_def)

lemma spec_max_h_mem: "spec_max_h xs \<noteq> 0 \<Longrightarrow> spec_max_h xs \<in> set xs"
proof (induction xs rule: rev_induct)
  case Nil
  then show ?case by (simp add: spec_max_h_def)
next
  case (snoc v xs)
  then show ?case by (auto simp: spec_max_h_snoc max_def split: if_splits)
qed

lemma first_index_append:
  "first_index (xs @ ys) v = (if v \<in> set xs then first_index xs v else length xs + first_index ys v)"
  by (induction xs) auto

lemma first_index_less: "v \<in> set xs \<Longrightarrow> first_index xs v < length xs"
  by (induction xs) auto

lemma spec_best_d_snoc:
  "spec_best_d (xs @ [v])
     = (if spec_max_h xs < v then length xs else spec_best_d xs)"
proof (cases "spec_max_h xs < v")
  case True
  then have v0: "v \<noteq> 0" using spec_max_h_nonneg [of xs] by linarith
  have "v \<notin> set xs" using True spec_max_h_ge [of v xs] by auto
  then show ?thesis using True v0
    by (simp add: spec_best_d_def spec_max_h_snoc max_def first_index_append)
next
  case False
  then have m: "max v (spec_max_h xs) = spec_max_h xs" by simp
  show ?thesis
  proof (cases "spec_max_h xs = 0")
    case True
    then show ?thesis using False by (simp add: spec_best_d_def spec_max_h_snoc m)
  next
    case nz: False
    then have "spec_max_h xs \<in> set xs" by (rule spec_max_h_mem)
    then show ?thesis using False nz
      by (simp add: spec_best_d_def spec_max_h_snoc m first_index_append)
  qed
qed

lemma vote_peak_prefix:
  assumes "k \<le> length h"
  shows "fold (\<lambda>d (best_disp, count, max_ht).
             let hd = h ! d in
             if max_ht < hd then (d, count + hd, hd) else (best_disp, count + hd, max_ht))
           [0..<k] (0, 0, 0)
       = (spec_best_d (take k h), sum_list (take k h), spec_max_h (take k h))"
  using assms
proof (induction k)
  case 0
  show ?case by (simp add: spec_best_d_def spec_max_h_def)
next
  case (Suc k)
  then have k: "k < length h" by simp
  have tk: "take (Suc k) h = take k h @ [h ! k]" using k by (rule take_Suc_conv_app_nth)
  have len: "length (take k h) = k" using k by simp
  show ?case
    using Suc.IH k
    by (simp add: tk spec_best_d_snoc [of "take k h"] spec_max_h_snoc Let_def max_def len
        del: take_Suc_conv_app_nth)
qed

lemma vote_peak_spec:
  "vote_peak h (length h) = (spec_best_d h, sum_list h, spec_max_h h)"
  using vote_peak_prefix [of "length h" h] by (simp add: vote_peak_def)

lemma spec_histogram_sum:
  assumes "\<forall>v\<in>set vs. min_d \<le> v \<and> v < min_d + int n"
  shows "sum_list (spec_histogram vs min_d n) = int (length vs)"
  using assms
proof (induction vs)
  case Nil
  show ?case by (simp add: spec_histogram_def)
next
  case (Cons v vs)
  then have v: "min_d \<le> v" "v < min_d + int n" by simp_all
  then have bn: "nat (v - min_d) < n" by linarith
  have "sum_list (map (\<lambda>b. if v = int b + min_d then 1 else 0 :: int) [0..<n])
      = (\<Sum>b\<in>{0..<n}. if b = nat (v - min_d) then 1 else 0)"
  proof -
    have "(v = int b + min_d) \<longleftrightarrow> (b = nat (v - min_d))" for b using v(1) by linarith
    then show ?thesis by (simp add: sum_list_sum_nth atLeast0LessThan cong: if_cong)
  qed
  also have "\<dots> = 1" using bn by simp
  finally have one: "sum_list (map (\<lambda>b. if v = int b + min_d then 1 else 0 :: int) [0..<n]) = 1" .
  have "sum_list (spec_histogram (v # vs) min_d n)
      = sum_list (map (\<lambda>b. (if v = int b + min_d then 1 else 0 :: int)
                            + int (count_list vs (int b + min_d))) [0..<n])"
    unfolding spec_histogram_def by (rule arg_cong [where f = sum_list]) auto
  also have "\<dots> = sum_list (map (\<lambda>b. if v = int b + min_d then 1 else 0 :: int) [0..<n])
                 + sum_list (spec_histogram vs min_d n)"
    by (simp add: sum_list_addf spec_histogram_def)
  finally show ?case using one Cons by simp
qed

lemma lround_of_int: "lround (real_of_int k) = k"
proof -
  have "\<lfloor>real_of_int k + 1 / 2\<rfloor> = k" by linarith
  moreover have "\<lceil>real_of_int k - 1 / 2\<rceil> = k" by linarith
  ultimately show ?thesis by (simp add: lround_def)
qed

lemma votes_in_range:
  assumes "arms_inside arms width height" "disparities_in_range K DL width height min_d max_d"
    and "min_d < max_d" "y < height" "x < width"
  shows "\<forall>v\<in>set (spec_votes K arms width DL x y).
           min_d \<le> v \<and> v < min_d + int (nat (max_d - min_d))"
proof
  fix v assume "v \<in> set (spec_votes K arms width DL x y)"
  then obtain p where p: "p \<in> set (region_hf arms width x y)"
    and valid: "DL ! (snd p * width + fst p) \<noteq> Invalid_Float K"
    and v: "v = lround (DL ! (snd p * width + fst p))"
    by (auto simp: spec_votes_def)
  from region_hf_inside [OF assms(1,4,5) p] have "fst p < width" "snd p < height" by simp_all
  then have "snd p * width + fst p < height * width" by (intro pixel_index(1))
  with assms(2) valid have "min_d \<le> v \<and> v < max_d"
    unfolding v disparities_in_range_def by blast
  then show "min_d \<le> v \<and> v < min_d + int (nat (max_d - min_d))" using assms(3) by simp
qed

lemma vote_pixel_spec:
  assumes "arms_inside arms width height" "disparities_in_range K DL width height min_d max_d"
    and "min_d < max_d" "snd pix < height" "fst pix < width" "0 \<le> th"
  shows "vote_pixel K arms width min_d max_d ts th pix DL
       = spec_vote_pixel K arms width min_d max_d ts th pix DL"
proof -
  let ?n = "nat (max_d - min_d)"
  let ?vs = "spec_votes K arms width DL (fst pix) (snd pix)"
  let ?bins = "spec_histogram ?vs min_d ?n"
  note vr = votes_in_range [OF assms(1,2,3,4,5)]
  have hist: "vote_histogram K arms width min_d DL (fst pix) (snd pix) (replicate ?n 0) = ?bins"
    by (rule vote_histogram_spec [OF assms(1,4,5) vr])
  have lb: "length ?bins = ?n" by (simp add: spec_histogram_def)
  have peak: "vote_peak ?bins ?n = (spec_best_d ?bins, int (length ?vs), spec_max_h ?bins)"
    using vote_peak_spec [of ?bins] spec_histogram_sum [OF vr] by (simp add: lb)
  have zero: "\<not> real_of_int (spec_max_h ?bins) / real_of_int (int (length ?vs)) > th"
    if "\<not> spec_max_h ?bins > 0"
  proof -
    from that spec_max_h_nonneg [of ?bins] have "spec_max_h ?bins = 0" by linarith
    then show ?thesis using assms(6) by simp
  qed
  show ?thesis
    using zero
    by (auto simp: vote_pixel_def spec_vote_pixel_def Let_def hist peak)
qed

lemma spec_vote_pixel_in_range:
  assumes "disparities_in_range K DL width height min_d max_d" "min_d < max_d" "0 \<le> th"
  shows "disparities_in_range K (spec_vote_pixel K arms width min_d max_d ts th pix DL)
           width height min_d max_d"
proof -
  let ?n = "nat (max_d - min_d)"
  let ?vs = "spec_votes K arms width DL (fst pix) (snd pix)"
  let ?bins = "spec_histogram ?vs min_d ?n"
  let ?v = "real_of_int (int (spec_best_d ?bins) + min_d)"
  have lb: "length ?bins = ?n" by (simp add: spec_histogram_def)
  have ok: "min_d \<le> lround ?v \<and> lround ?v < max_d"
    if "real_of_int (spec_max_h ?bins) / real_of_int (int (length ?vs)) > th"
  proof -
    from that assms(3) have "spec_max_h ?bins \<noteq> 0" by auto
    then have "spec_best_d ?bins < ?n"
      using first_index_less [OF spec_max_h_mem, of ?bins] lb
      by (simp add: spec_best_d_def)
    then show ?thesis unfolding lround_of_int using assms(2) by linarith
  qed
  show ?thesis
  proof (cases "DL ! (snd pix * width + fst pix) = Invalid_Float K
            \<and> int (length ?vs) > ts
            \<and> real_of_int (spec_max_h ?bins) / real_of_int (int (length ?vs)) > th")
    case False
    then have "spec_vote_pixel K arms width min_d max_d ts th pix DL = DL"
      by (auto simp: spec_vote_pixel_def Let_def)
    then show ?thesis using assms(1) by simp
  next
    case True
    then have e: "spec_vote_pixel K arms width min_d max_d ts th pix DL
        = DL[snd pix * width + fst pix := ?v]"
      by (simp add: spec_vote_pixel_def Let_def)
    from True ok have okv: "min_d \<le> lround ?v \<and> lround ?v < max_d" by blast
    have len: "length DL = height * width"
      and all: "\<And>i. i < height * width \<Longrightarrow> DL ! i \<noteq> Invalid_Float K
                 \<Longrightarrow> min_d \<le> lround (DL ! i) \<and> lround (DL ! i) < max_d"
      using assms(1) by (simp_all add: disparities_in_range_def)
    have "min_d \<le> lround (DL[snd pix * width + fst pix := ?v] ! i)
          \<and> lround (DL[snd pix * width + fst pix := ?v] ! i) < max_d"
      if "i < height * width" "DL[snd pix * width + fst pix := ?v] ! i \<noteq> Invalid_Float K" for i
    proof (cases "i = snd pix * width + fst pix")
      case True
      then have "DL[snd pix * width + fst pix := ?v] ! i = ?v" using that(1) len by simp
      then show ?thesis using okv by simp
    next
      case False
      then have "DL[snd pix * width + fst pix := ?v] ! i = DL ! i" by simp
      then show ?thesis using all [OF that(1)] that(2) by simp
    qed
    then show ?thesis
      unfolding e disparities_in_range_def using len by simp
  qed
qed

lemma vote_fold_spec:
  assumes "arms_inside arms width height" "disparities_in_range K DL width height min_d max_d"
    and "min_d < max_d" "pixels_inside pixels width height" "0 \<le> th"
  shows "fold (vote_pixel K arms width min_d max_d ts th) pixels DL
           = fold (spec_vote_pixel K arms width min_d max_d ts th) pixels DL
       \<and> disparities_in_range K (fold (spec_vote_pixel K arms width min_d max_d ts th) pixels DL)
           width height min_d max_d"
  using assms(2,4)
proof (induction pixels arbitrary: DL)
  case Nil
  then show ?case by simp
next
  case (Cons pix pixels)
  have pin: "snd pix < height" "fst pix < width" and rest: "pixels_inside pixels width height"
    using Cons.prems(2) by (simp_all add: pixels_inside_def)
  have one: "vote_pixel K arms width min_d max_d ts th pix DL
           = spec_vote_pixel K arms width min_d max_d ts th pix DL"
    by (rule vote_pixel_spec [OF assms(1) Cons.prems(1) assms(3) pin assms(5)])
  have inv: "disparities_in_range K (spec_vote_pixel K arms width min_d max_d ts th pix DL)
               width height min_d max_d"
    by (rule spec_vote_pixel_in_range [OF Cons.prems(1) assms(3,5)])
  from Cons.IH [OF inv rest] show ?case by (simp add: one)
qed

lemma vote_pass_spec:
  assumes "arms_inside arms width height" "disparities_in_range K DL width height min_d max_d"
    and "min_d < max_d" "pixels_inside pixels width height" "0 \<le> th"
  shows "vote_pass K arms width min_d max_d ts th (DL, pixels)
           = spec_vote_pass K arms width min_d max_d ts th (DL, pixels)"
    and "disparities_in_range K (fst (spec_vote_pass K arms width min_d max_d ts th (DL, pixels)))
           width height min_d max_d"
    and "pixels_inside (snd (spec_vote_pass K arms width min_d max_d ts th (DL, pixels)))
           width height"
  using vote_fold_spec [OF assms, of ts] assms(4)
  by (simp_all add: vote_pass_def spec_vote_pass_def Let_def pixels_inside_def)

lemma vote_iteration_spec:
  assumes "arms_inside arms width height" "disparities_in_range K DL width height min_d max_d"
    and "min_d < max_d" "pixels_inside occlusions width height"
    and "pixels_inside mismatches width height" "0 \<le> th"
  shows "vote_iteration K arms width min_d max_d ts th (DL, occlusions, mismatches)
           = spec_vote_iteration K arms width min_d max_d ts th (DL, occlusions, mismatches)"
    and "disparities_in_range K
           (fst (spec_vote_iteration K arms width min_d max_d ts th (DL, occlusions, mismatches)))
           width height min_d max_d"
    and "pixels_inside
           (fst (snd (spec_vote_iteration K arms width min_d max_d ts th (DL, occlusions, mismatches))))
           width height"
    and "pixels_inside
           (snd (snd (spec_vote_iteration K arms width min_d max_d ts th (DL, occlusions, mismatches))))
           width height"
proof -
  let ?p1 = "spec_vote_pass K arms width min_d max_d ts th (DL, mismatches)"
  note m = vote_pass_spec [OF assms(1,2,3,5,6), of ts]
  let ?p2 = "spec_vote_pass K arms width min_d max_d ts th (fst ?p1, occlusions)"
  note oc = vote_pass_spec [OF assms(1) m(2) assms(3,4,6), of ts]
  show "vote_iteration K arms width min_d max_d ts th (DL, occlusions, mismatches)
           = spec_vote_iteration K arms width min_d max_d ts th (DL, occlusions, mismatches)"
    unfolding vote_iteration_def spec_vote_iteration_def
    by (simp add: m(1) split_beta Let_def oc(1))
  show "disparities_in_range K
           (fst (spec_vote_iteration K arms width min_d max_d ts th (DL, occlusions, mismatches)))
           width height min_d max_d"
    using oc(2) by (simp add: spec_vote_iteration_def)
  show "pixels_inside
           (fst (snd (spec_vote_iteration K arms width min_d max_d ts th (DL, occlusions, mismatches))))
           width height"
    using oc(3) by (simp add: spec_vote_iteration_def)
  show "pixels_inside
           (snd (snd (spec_vote_iteration K arms width min_d max_d ts th (DL, occlusions, mismatches))))
           width height"
    using m(3) by (simp add: spec_vote_iteration_def)
qed

lemma vote_iterations_spec:
  assumes "arms_inside arms width height" "min_d < max_d" "0 \<le> th"
    and "disparities_in_range K (fst s) width height min_d max_d"
    and "pixels_inside (fst (snd s)) width height" "pixels_inside (snd (snd s)) width height"
  shows "fold (\<lambda>it. vote_iteration K arms width min_d max_d ts th) its s
           = (spec_vote_iteration K arms width min_d max_d ts th ^^ length its) s"
  using assms(4,5,6)
proof (induction its arbitrary: s)
  case Nil
  show ?case by simp
next
  case (Cons it its)
  obtain DL occ mis where s: "s = (DL, occ, mis)" using prod_cases3 by blast
  note one = vote_iteration_spec [OF assms(1) _ assms(2) _ _ assms(3), of K DL occ mis ts]
  have pre: "disparities_in_range K DL width height min_d max_d"
    "pixels_inside occ width height" "pixels_inside mis width height"
    using Cons.prems by (simp_all add: s)
  note r = one [OF pre]
  have "fold (\<lambda>it. vote_iteration K arms width min_d max_d ts th) its
          (spec_vote_iteration K arms width min_d max_d ts th s)
      = (spec_vote_iteration K arms width min_d max_d ts th ^^ length its)
          (spec_vote_iteration K arms width min_d max_d ts th s)"
    by (rule Cons.IH) (use r(2,3,4) in \<open>simp_all add: s\<close>)
  then show ?case by (simp add: s r(1) funpow_swap1)
qed

text \<open>
  Claim C6.  On a map whose valid entries round into the disparity range, with arms
  and listed pixels inside the image and a ratio floor \<open>irv_th \<ge> 0\<close>,
  \<open>IterativeRegionVoting\<close> is five iterations of the specification's iteration: the
  mismatch list first and then the occlusion list; every still-invalid pixel of the
  list gets \<open>best_d + min_disparity\<close> exactly when the number of valid votes of its
  region exceeds \<open>irv_ts\<close> and the peak bin's share \<open>max_h / count\<close> exceeds \<open>irv_th\<close>;
  after each pass the pixels that are no longer invalid leave the list.
\<close>

theorem IterativeRegionVoting_spec:
  assumes "arms_inside arms width height" "min_d < max_d" "0 \<le> th"
    and "disparities_in_range K DL width height min_d max_d"
    and "pixels_inside occlusions width height" "pixels_inside mismatches width height"
  shows "IterativeRegionVoting K arms width min_d max_d ts th (DL, occlusions, mismatches)
       = (spec_vote_iteration K arms width min_d max_d ts th ^^ 5) (DL, occlusions, mismatches)"
  using vote_iterations_spec [OF assms(1,2,3), of K "(DL, occlusions, mismatches)" ts "[0..<5]"]
    assms(2,4,5,6)
  by (simp add: IterativeRegionVoting_def)

lemma irv_input_in_range: "disparities_in_range K0 [1, 1000000] 2 1 0 2"
proof -
  have "lround 1 = 1" by (simp add: lround_def)
  moreover have "i < 2 \<longleftrightarrow> i = 0 \<or> i = 1" for i :: nat by auto
  ultimately show ?thesis
    by (simp add: disparities_in_range_def K0_def)
qed

theorem IterativeRegionVoting_spec_witness:
  "IterativeRegionVoting K0 arms2 2 0 2 0 (2 / 5) ([1, 1000000], [], [(1, 0)])
     = (spec_vote_iteration K0 arms2 2 0 2 0 (2 / 5) ^^ 5) ([1, 1000000], [], [(1, 0)])
   \<and> (spec_vote_iteration K0 arms2 2 0 2 0 (2 / 5) ^^ 5) ([1, 1000000], [], [(1, 0)])
     = ([1, 1], [], [])"
proof -
  have a: "pixels_inside [] 2 1" "pixels_inside [(1, 0)] 2 1"
    by (simp_all add: pixels_inside_def)
  have b: "(spec_vote_iteration K0 arms2 2 0 2 0 (2 / 5) ^^ 5) ([1, 1000000], [], [(1, 0)])
     = ([1, 1], [], [])"
    by code_simp
  from IterativeRegionVoting_spec [where th = "2 / 5" and ts = 0, OF arms2_inside _ _ irv_input_in_range a] b
  show ?thesis by simp
qed

end
